theory Spec2Isabelle
  imports Main "HOL-Library.AList"
begin

section \<open>A-Cast (services/acast.go)\<close>

datatype MessageType = MSG | ECHO | READY

record 'v ACastMessage =
  am_Type :: MessageType
  am_UUID :: string
  am_Val :: 'v
  am_From :: int

text \<open>
  \<^verbatim>\<open>ACastInstance\<close>: the two voter tables are Go maps \<^verbatim>\<open>map[T]map[int]bool\<close> in which
  only \<^verbatim>\<open>true\<close> is ever stored, so each is a family of sets of sender ids; a missing
  key reads as the empty set. On delivery the code sets both tables to \<^verbatim>\<open>nil\<close>; a nil
  map reads as empty, and it is never written again because of the \<^verbatim>\<open>delivered\<close> guard.
\<close>

record 'v ACastInstance =
  receivedEcho :: "'v \<Rightarrow> int set"
  receivedReady :: "'v \<Rightarrow> int set"
  sentEcho :: bool
  sentReady :: bool
  delivered :: bool

definition NewACastInstance :: "'v ACastInstance" where
  "NewACastInstance =
     \<lparr>receivedEcho = (\<lambda>_. {}), receivedReady = (\<lambda>_. {}),
      sentEcho = False, sentReady = False, delivered = False\<rparr>"

record 'v AcastService =
  as_id :: int
  as_n :: int
  as_t :: int
  as_instances :: "string \<rightharpoonup> 'v ACastInstance"

definition NewAcastService :: "int \<Rightarrow> int \<Rightarrow> int \<Rightarrow> 'v AcastService" where
  "NewAcastService i n t = \<lparr>as_id = i, as_n = n, as_t = t, as_instances = Map.empty\<rparr>"

definition Acast_getInstance :: "'v AcastService \<Rightarrow> string \<Rightarrow> 'v ACastInstance" where
  "Acast_getInstance a uuid = (case as_instances a uuid of None \<Rightarrow> NewACastInstance | Some inst \<Rightarrow> inst)"

definition addToSet :: "('v \<Rightarrow> int set) \<Rightarrow> 'v \<Rightarrow> int \<Rightarrow> ('v \<Rightarrow> int set) \<times> int" where
  "addToSet m val frm = (let m' = m(val := insert frm (m val)) in (m', int (card (m' val))))"

text \<open>
  The body of \<^verbatim>\<open>OnMessage\<close> on the instance of the message's uuid. The result is the
  updated instance, the envelopes passed to \<^verbatim>\<open>ctx.Broadcast\<close> (in order) and the values
  passed to \<^verbatim>\<open>ctx.SendResult\<close>.
\<close>

definition Acast_instOnMessage ::
  "int \<Rightarrow> int \<Rightarrow> int \<Rightarrow> 'v ACastMessage \<Rightarrow> 'v ACastInstance
     \<Rightarrow> 'v ACastInstance \<times> 'v ACastMessage list \<times> 'v list" where
  "Acast_instOnMessage me n t msg inst =
    (if delivered inst then (inst, [], [])
     else case am_Type msg of
       MSG \<Rightarrow>
         (if \<not> sentEcho inst
          then (inst\<lparr>sentEcho := True\<rparr>,
                [\<lparr>am_Type = ECHO, am_UUID = am_UUID msg, am_Val = am_Val msg, am_From = me\<rparr>], [])
          else (inst, [], []))
     | ECHO \<Rightarrow>
         (let (m', count) = addToSet (receivedEcho inst) (am_Val msg) (am_From msg);
              inst1 = inst\<lparr>receivedEcho := m'\<rparr>;
              threshold = n - t
          in if count \<ge> threshold \<and> \<not> sentReady inst1
             then (inst1\<lparr>sentReady := True\<rparr>,
                   [\<lparr>am_Type = READY, am_UUID = am_UUID msg, am_Val = am_Val msg, am_From = me\<rparr>], [])
             else (inst1, [], []))
     | READY \<Rightarrow>
         (let (m', count) = addToSet (receivedReady inst) (am_Val msg) (am_From msg);
              inst1 = inst\<lparr>receivedReady := m'\<rparr>;
              (inst2, bs) =
                (if count \<ge> t + 1 \<and> \<not> sentReady inst1
                 then (inst1\<lparr>sentReady := True\<rparr>,
                       [\<lparr>am_Type = READY, am_UUID = am_UUID msg, am_Val = am_Val msg, am_From = me\<rparr>])
                 else (inst1, []))
          in if count \<ge> 2 * t + 1 \<and> \<not> delivered inst2
             then (inst2\<lparr>delivered := True, receivedEcho := (\<lambda>_. {}), receivedReady := (\<lambda>_. {})\<rparr>,
                   bs, [am_Val msg])
             else (inst2, bs, [])))"

definition Acast_OnMessage ::
  "'v ACastMessage \<Rightarrow> 'v AcastService \<Rightarrow> 'v AcastService \<times> 'v ACastMessage list \<times> 'v list" where
  "Acast_OnMessage msg a =
    (let (inst', bs, rs) = Acast_instOnMessage (as_id a) (as_n a) (as_t a) msg (Acast_getInstance a (am_UUID msg))
     in (a\<lparr>as_instances := (as_instances a)(am_UUID msg \<mapsto> inst')\<rparr>, bs, rs))"

text \<open>A node handling a sequence of messages; each delivery is recorded with its uuid.\<close>

fun Acast_OnMessages ::
  "'v ACastMessage list \<Rightarrow> 'v AcastService
     \<Rightarrow> 'v AcastService \<times> 'v ACastMessage list \<times> (string \<times> 'v) list" where
  "Acast_OnMessages [] a = (a, [], [])"
| "Acast_OnMessages (msg # msgs) a =
    (case Acast_OnMessage msg a of (a1, bs1, rs1) \<Rightarrow>
       (case Acast_OnMessages msgs a1 of (a2, bs2, rs2) \<Rightarrow>
          (a2, bs1 @ bs2, map (\<lambda>v. (am_UUID msg, v)) rs1 @ rs2)))"

definition delivers_of :: "string \<Rightarrow> (string \<times> 'v) list \<Rightarrow> 'v list" where
  "delivers_of uuid rs = map snd (filter (\<lambda>r. fst r = uuid) rs)"

text \<open>A concrete node (n = 4, t = 1) and READY envelopes for one uuid.\<close>

definition acast_ready_from :: "int \<Rightarrow> string ACastMessage" where
  "acast_ready_from j = \<lparr>am_Type = READY, am_UUID = ''u'', am_Val = ''v'', am_From = j\<rparr>"

definition acast_delivered_state :: "string AcastService" where
  "acast_delivered_state =
     \<lparr>as_id = 1, as_n = 4, as_t = 1,
      as_instances = [''u'' \<mapsto> NewACastInstance\<lparr>sentReady := True, delivered := True\<rparr>]\<rparr>"



section \<open>Prime field and polynomials (utils: polynomial.go)\<close>

text \<open>
  The field modulus of the source, \<^verbatim>\<open>utils.Prime\<close>, given there in hexadecimal
  (FFFFFFFF FFFFFFFF FFFFFFFF FFFFFFFF FFFFFFFF FFFFFFFF FFFFFFFE FFFFFC2F). Field
  elements are \<^verbatim>\<open>*big.Int\<close>, unbounded integers: \<^typ>\<open>int\<close>.
\<close>

definition Prime :: int where
  "Prime = 115792089237316195423570985008687907853269984665640564039457584007908834671663"

datatype Panic = NilDereference | IndexOutOfRange | DivisionByZero

text \<open>
  \<^verbatim>\<open>big.Int.Mod(x, m)\<close> is the Euclidean modulus: it panics for \<open>m = 0\<close> and its
  result lies in \<open>[0, |m|)\<close>. The polynomial functions below take the modulus as an
  argument \<open>p\<close>; the source always passes \<^const>\<open>Prime\<close>, which is positive, and for
  a positive modulus the Euclidean modulus is \<open>x mod p\<close>.
\<close>

definition big_Mod :: "int \<Rightarrow> int \<Rightarrow> int" where
  "big_Mod x m = x mod \<bar>m\<bar>"

record Polynomial =
  Coeffs :: "int list"

text \<open>
  \<^verbatim>\<open>Polynomial.Evaluate\<close>: Horner's method from the highest coefficient down, reducing
  after every step.
\<close>

definition Evaluate :: "int \<Rightarrow> Polynomial \<Rightarrow> int \<Rightarrow> int" where
  "Evaluate p poly x = foldl (\<lambda>result c. big_Mod (result * x + c) p) 0 (rev (Coeffs poly))"

text \<open>
  \<^verbatim>\<open>SymmetricPolynomial.GetUnivariatePolynomial\<close>: the coefficient of \<open>y^j\<close> of
  \<open>F(k, y)\<close> is \<open>\<Sum>i. C i j * k^i\<close>, accumulated modulo \<open>p\<close>. The matrix is a list
  of rows; \<^verbatim>\<open>big.Int.Exp(k, i, p)\<close> is \<open>k^i\<close> reduced modulo \<open>p\<close>.
\<close>

record SymmetricPolynomial =
  sp_Coeffs :: "int list list"
  sp_Degree :: nat

definition GetUnivariatePolynomial :: "int \<Rightarrow> SymmetricPolynomial \<Rightarrow> int \<Rightarrow> Polynomial" where
  "GetUnivariatePolynomial p sp k =
     \<lparr>Coeffs = map (\<lambda>j. foldl (\<lambda>coeffJ i.
                          big_Mod (coeffJ + big_Mod ((sp_Coeffs sp ! i ! j) * big_Mod (k ^ i) p) p) p)
                        0 [0..<Suc (sp_Degree sp)])
                 [0..<Suc (sp_Degree sp)]\<rparr>"

text \<open>
  Extended Euclid, for \<^verbatim>\<open>big.Int.ModInverse\<close> of the Go standard library (not part of
  the repository): \<^verbatim>\<open>ModInverse(g, n)\<close> reduces a negative \<open>g\<close> modulo \<open>n\<close>, returns
  nil when \<open>g\<close> and \<open>n\<close> are not relatively prime, and otherwise the Bezout
  coefficient of \<open>g\<close> brought into the range \<open>[0, |n|)\<close>.
\<close>

function egcd :: "int \<Rightarrow> int \<Rightarrow> int \<times> int \<times> int" where
  "egcd a b =
     (if b = 0 then (a, 1, 0)
      else (case egcd b (a mod b) of (g, x, y) \<Rightarrow> (g, y, x - (a div b) * y)))"
  by pat_completeness auto
termination
  by (relation "measure (\<lambda>(a, b). nat \<bar>b\<bar>)") (auto simp: abs_mod_less)

declare egcd.simps [simp del]

definition ModInverse :: "int \<Rightarrow> int \<Rightarrow> int option" where
  "ModInverse g n =
     (let n' = \<bar>n\<bar>;
          g' = (if g < 0 then big_Mod g n' else g)
      in case egcd g' n' of (d, x, y) \<Rightarrow>
           if d \<noteq> 1 then None else Some (x mod n'))"

text \<open>
  \<^verbatim>\<open>InterpolateAtZero\<close>. The inner loop runs over the indices \<open>m\<close> of \<open>xs\<close> and skips
  \<open>m = j\<close> (by index). Reading \<open>ys[j]\<close> beyond the end of \<open>ys\<close> panics, and so does
  multiplying by the nil that \<^verbatim>\<open>ModInverse\<close> returns for a denominator that has no
  inverse.
\<close>

definition lagrange_num_den :: "int \<Rightarrow> int list \<Rightarrow> nat \<Rightarrow> int \<times> int" where
  "lagrange_num_den p xs j =
     foldl (\<lambda>(num, den) m.
              if m = j then (num, den)
              else (big_Mod (num * (- (xs ! m))) p, big_Mod (den * (xs ! j - xs ! m)) p))
           (1, 1) [0..<length xs]"

definition lagrange_term :: "int \<Rightarrow> int list \<Rightarrow> int list \<Rightarrow> nat \<Rightarrow> Panic + int" where
  "lagrange_term p xs ys j =
     (case lagrange_num_den p xs j of (num, den) \<Rightarrow>
        if j \<ge> length ys then Inl IndexOutOfRange
        else (let term = big_Mod (ys ! j * num) p
              in case ModInverse den p of
                   None \<Rightarrow> Inl NilDereference
                 | Some denInv \<Rightarrow> Inr (big_Mod (term * denInv) p)))"

fun interpolate_loop :: "int \<Rightarrow> int list \<Rightarrow> int list \<Rightarrow> nat list \<Rightarrow> int \<Rightarrow> Panic + int" where
  "interpolate_loop p xs ys [] result = Inr result"
| "interpolate_loop p xs ys (j # js) result =
     (case lagrange_term p xs ys j of
        Inl e \<Rightarrow> Inl e
      | Inr term \<Rightarrow> interpolate_loop p xs ys js (big_Mod (result + term) p))"

definition InterpolateAtZero :: "int \<Rightarrow> int list \<Rightarrow> int list \<Rightarrow> Panic + int" where
  "InterpolateAtZero p xs ys =
     (case interpolate_loop p xs ys [0..<length xs] 0 of
        Inl e \<Rightarrow> Inl e
      | Inr result \<Rightarrow> Inr (if result < 0 then result + p else result))"

text \<open>
  The mathematical side of the interpolation claim: the value of the polynomial with
  integer coefficients \<open>cs\<close> (lowest degree first) at \<open>x\<close>, and primality of the modulus.
\<close>

fun poly_value :: "int list \<Rightarrow> int \<Rightarrow> int" where
  "poly_value [] x = 0"
| "poly_value (c # cs) x = c + x * poly_value cs x"

definition is_prime :: "int \<Rightarrow> bool" where
  "is_prime p = (1 < p \<and> (\<forall>d \<in> {2..<p}. \<not> d dvd p))"

section \<open>Certification registry\<close>

text \<open>
  \<^verbatim>\<open>CertificationProtocol\<close>: the set of faulty pairs, stored as (min, max), and the list
  of completed core invocations.
\<close>

record CertificationProtocol =
  fp :: "(int \<times> int) set"
  coreInvocations :: "string list"

definition NewCertificationProtocol :: CertificationProtocol where
  "NewCertificationProtocol = \<lparr>fp = {}, coreInvocations = []\<rparr>"

definition AddFaultyPair :: "int \<Rightarrow> int \<Rightarrow> CertificationProtocol \<Rightarrow> CertificationProtocol" where
  "AddFaultyPair i j cp = (if i > j then cp\<lparr>fp := insert (j, i) (fp cp)\<rparr>
                           else cp\<lparr>fp := insert (i, j) (fp cp)\<rparr>)"

definition IsFaultyPair :: "CertificationProtocol \<Rightarrow> int \<Rightarrow> int \<Rightarrow> bool" where
  "IsFaultyPair cp i j = (if i > j then (j, i) \<in> fp cp else (i, j) \<in> fp cp)"


subsection \<open>Polynomials as coefficient lists, for the proof of the interpolation claim\<close>

fun padd :: "int list \<Rightarrow> int list \<Rightarrow> int list" where
  "padd [] q = q"
| "padd p [] = p"
| "padd (a # p) (b # q) = (a + b) # padd p q"

definition smult :: "int \<Rightarrow> int list \<Rightarrow> int list" where
  "smult c p = map (\<lambda>a. c * a) p"

text \<open>The product of a polynomial with \<open>x - a\<close>, and the product of the \<open>x - a\<close> over a list.\<close>

definition pmul_lin :: "int \<Rightarrow> int list \<Rightarrow> int list" where
  "pmul_lin a p = padd (0 # p) (smult (- a) p)"

fun prod_lin :: "int list \<Rightarrow> int list" where
  "prod_lin [] = [1]"
| "prod_lin (a # as) = pmul_lin a (prod_lin as)"

text \<open>The quotient of the division by \<open>x - r\<close> (Horner's scheme).\<close>

fun sdiv :: "int \<Rightarrow> int list \<Rightarrow> int list" where
  "sdiv r [] = []"
| "sdiv r [c] = []"
| "sdiv r (c # cs) = poly_value cs r # sdiv r cs"

text \<open>The points other than the one at index \<open>j\<close>, in order.\<close>

definition others :: "nat \<Rightarrow> int list \<Rightarrow> int list" where
  "others j xs = map (\<lambda>m. xs ! m) (filter (\<lambda>m. m \<noteq> j) [0..<length xs])"

text \<open>
  The Lagrange polynomial through the points, with integer coefficients: the weight of
  the \<open>j\<close>-th basis product is \<open>w j\<close> (the value times an inverse of the denominator
  modulo \<open>p\<close>).
\<close>

fun lagrange_sum :: "(nat \<Rightarrow> int) \<Rightarrow> int list \<Rightarrow> nat list \<Rightarrow> int list" where
  "lagrange_sum w xs [] = []"
| "lagrange_sum w xs (j # js) = padd (smult (w j) (prod_lin (others j xs))) (lagrange_sum w xs js)"

text \<open>
  One step of the inner loop of \<^verbatim>\<open>InterpolateAtZero\<close> on a point \<open>a\<close> other than
  \<open>x\<^sub>j\<close>, and the inverse of the denominator that the loop for index \<open>j\<close> arrives at.
\<close>

definition num_den_step :: "int \<Rightarrow> int \<Rightarrow> int \<times> int \<Rightarrow> int \<Rightarrow> int \<times> int" where
  "num_den_step p xj nd a = (big_Mod (fst nd * (- a)) p, big_Mod (snd nd * (xj - a)) p)"

definition den_inverse :: "int \<Rightarrow> int list \<Rightarrow> nat \<Rightarrow> int" where
  "den_inverse p xs j = (case ModInverse (snd (lagrange_num_den p xs j)) p of None \<Rightarrow> 0 | Some i \<Rightarrow> i)"


section \<open>IVSS (services: ivss.go)\<close>

datatype IVSSPayloadType = Payload_Equal | Payload_MSet | Payload_Reveal | Payload_Ready

text \<open>
  Slices and pointers that the code compares with \<^verbatim>\<open>nil\<close> are options:
  \<^verbatim>\<open>MSet []int\<close>, \<^verbatim>\<open>RevealPoly *utils.Polynomial\<close>, \<^verbatim>\<open>Point *big.Int\<close>.
\<close>

record IVSSPayload =
  pl_InstanceID :: string
  pl_Type :: IVSSPayloadType
  pl_EqualPair :: "int \<times> int"
  pl_MSet :: "int list option"
  pl_RevealPoly :: "Polynomial option"
  pl_RevealSender :: int

text \<open>
  The A-Cast value of the upper layers is the JSON text of a payload. A text is either
  the encoding of a payload or something \<^verbatim>\<open>json.Unmarshal\<close> rejects. Encoding drops an
  empty \<^verbatim>\<open>MSet\<close> (\<^verbatim>\<open>omitempty\<close>), which then decodes as nil.
\<close>

datatype 'a json = Json 'a | Malformed string

definition IVSSPayload_String :: "IVSSPayload \<Rightarrow> IVSSPayload json" where
  "IVSSPayload_String p = Json (p\<lparr>pl_MSet := (case pl_MSet p of Some [] \<Rightarrow> None | m \<Rightarrow> m)\<rparr>)"

fun ParseIVSSPayload :: "IVSSPayload json \<Rightarrow> IVSSPayload option" where
  "ParseIVSSPayload (Json p) = Some p"
| "ParseIVSSPayload (Malformed s) = None"

datatype IVSSMsgType = IVSS_Direct | IVSS_ACast

datatype DirectMsgType = Direct_Share | Direct_Point

record IVSSMessage =
  im_Type :: IVSSMsgType
  im_DirectType :: DirectMsgType
  im_To :: int
  im_From :: int
  im_InstanceID :: string
  im_Poly :: "Polynomial option"
  im_Point :: "int option"
  im_PointIdx :: int
  im_ACastMsg :: "IVSSPayload json ACastMessage option"

record IVSSResult =
  ir_InstanceID :: string
  ir_Type :: string
  ir_Secret :: "int option"
  ir_MSet :: "int list option"
  ir_Poly :: "Polynomial option"

text \<open>
  \<^verbatim>\<open>IVSSInstance\<close>. Go maps that the code iterates over (\<^verbatim>\<open>earlyPoints\<close>,
  \<^verbatim>\<open>reconstructedPolys\<close>) are association lists with distinct keys; Go leaves the
  iteration order open, the model iterates in list order. Maps used as sets are sets.
  The fields \<^verbatim>\<open>receivedPoints\<close> and \<^verbatim>\<open>consistentPeers\<close> are never read or written.
\<close>

record IVSSInstance =
  ii_id :: string
  ii_dealer :: int
  receivedPoly :: "Polynomial option"
  earlyPoints :: "(int \<times> int option) list"
  completedEquals :: "(int \<times> int) set"
  mSet :: "int list option"
  pendingMSet :: "int list option"
  sharingCompleted :: bool
  reconstructedPolys :: "(int \<times> Polynomial option) list"
  readyToComplete :: "int set"
  reconstructed :: bool
  secret :: "int option"

definition NewIVSSInstance :: "string \<Rightarrow> int \<Rightarrow> IVSSInstance" where
  "NewIVSSInstance i d =
     \<lparr>ii_id = i, ii_dealer = d, receivedPoly = None, earlyPoints = [],
      completedEquals = {}, mSet = None, pendingMSet = None, sharingCompleted = False,
      reconstructedPolys = [], readyToComplete = {}, reconstructed = False, secret = None\<rparr>"

text \<open>
  \<^verbatim>\<open>IVSSService\<close>. The certification registry is reached through a pointer shared with
  the other layers of the node; here it is a component of the service state.
\<close>

record IVSSService =
  is_id :: int
  is_n :: int
  is_t :: int
  is_acast :: "IVSSPayload json AcastService"
  is_cp :: CertificationProtocol
  is_instances :: "string \<rightharpoonup> IVSSInstance"

definition NewIVSSService :: "int \<Rightarrow> int \<Rightarrow> int \<Rightarrow> CertificationProtocol \<Rightarrow> IVSSService" where
  "NewIVSSService i n t cp =
     \<lparr>is_id = i, is_n = n, is_t = t, is_acast = NewAcastService i n t, is_cp = cp,
      is_instances = Map.empty\<rparr>"

definition IVSS_getInstance :: "IVSSService \<Rightarrow> string \<Rightarrow> int \<Rightarrow> IVSSInstance" where
  "IVSS_getInstance s i d = (case is_instances s i of None \<Rightarrow> NewIVSSInstance i d | Some inst \<Rightarrow> inst)"

subsection \<open>Formatting of integers (\<^verbatim>\<open>%d\<close>) and of a pair (\<^verbatim>\<open>%v\<close> of \<^verbatim>\<open>[2]int\<close>)\<close>

function show_nat :: "nat \<Rightarrow> string" where
  "show_nat n = (if n < 10 then [''0123456789'' ! n]
                 else show_nat (n div 10) @ [''0123456789'' ! (n mod 10)])"
  by pat_completeness auto
termination
  by (relation "measure id") auto

declare show_nat.simps [simp del]

definition show_int :: "int \<Rightarrow> string" where
  "show_int i = (if i < 0 then CHR ''-'' # show_nat (nat (- i)) else show_nat (nat i))"

definition show_pair :: "int \<times> int \<Rightarrow> string" where
  "show_pair pr = ''['' @ show_int (fst pr) @ '' '' @ show_int (snd pr) @ '']''"

fun payload_type_code :: "IVSSPayloadType \<Rightarrow> int" where
  "payload_type_code Payload_Equal = 0"
| "payload_type_code Payload_MSet = 1"
| "payload_type_code Payload_Reveal = 2"
| "payload_type_code Payload_Ready = 3"

subsection \<open>\<^verbatim>\<open>startACast\<close>\<close>

text \<open>
  The uuid that \<^verbatim>\<open>startACast\<close> gives the A-Cast of a payload: first the default
  \<^verbatim>\<open>Sprintf("%s-%d-%v", InstanceID, Type, EqualPair)\<close>, then overwritten for the three
  other payload types.
\<close>

definition startACast_uuid :: "int \<Rightarrow> IVSSPayload \<Rightarrow> string" where
  "startACast_uuid me payload =
     (let uuid = pl_InstanceID payload @ ''-'' @ show_int (payload_type_code (pl_Type payload))
                   @ ''-'' @ show_pair (pl_EqualPair payload)
      in if pl_Type payload = Payload_MSet then pl_InstanceID payload @ ''-MSET''
         else if pl_Type payload = Payload_Reveal
              then pl_InstanceID payload @ ''-REVEAL-'' @ show_int me
         else if pl_Type payload = Payload_Ready
              then pl_InstanceID payload @ ''-READY-'' @ show_int me
         else uuid)"

definition IVSS_wrap :: "IVSSPayload json ACastMessage \<Rightarrow> IVSSMessage" where
  "IVSS_wrap am =
     \<lparr>im_Type = IVSS_ACast, im_DirectType = Direct_Share, im_To = 0, im_From = 0,
      im_InstanceID = [], im_Poly = None, im_Point = None, im_PointIdx = 0,
      im_ACastMsg = Some am\<rparr>"

definition startACast :: "int \<Rightarrow> IVSSPayload \<Rightarrow> IVSSMessage" where
  "startACast me payload =
     IVSS_wrap \<lparr>am_Type = MSG, am_UUID = startACast_uuid me payload,
                am_Val = IVSSPayload_String payload, am_From = me\<rparr>"

subsection \<open>Sharing: direct messages\<close>

text \<open>
  \<^verbatim>\<open>Evaluate\<close> on a nil polynomial and \<^verbatim>\<open>Cmp\<close> with a nil point dereference nil.
\<close>

definition equal_payload :: "int \<Rightarrow> IVSSInstance \<Rightarrow> int \<Rightarrow> IVSSPayload" where
  "equal_payload me inst frm =
     \<lparr>pl_InstanceID = ii_id inst, pl_Type = Payload_Equal, pl_EqualPair = (me, frm),
      pl_MSet = None, pl_RevealPoly = None, pl_RevealSender = 0\<rparr>"

definition processPoint ::
  "int \<Rightarrow> IVSSInstance \<Rightarrow> int \<Rightarrow> int option \<Rightarrow> Panic + IVSSMessage list" where
  "processPoint me inst frm point =
     (case receivedPoly inst of
        None \<Rightarrow> Inl NilDereference
      | Some poly \<Rightarrow>
          (let myEval = Evaluate Prime poly frm
           in case point of
                None \<Rightarrow> Inl NilDereference
              | Some pt \<Rightarrow>
                  if myEval = pt
                  then Inr [startACast me (equal_payload me inst frm)]
                  else Inr []))"

fun processEarlyPoints ::
  "int \<Rightarrow> IVSSInstance \<Rightarrow> (int \<times> int option) list \<Rightarrow> Panic + IVSSMessage list" where
  "processEarlyPoints me inst [] = Inr []"
| "processEarlyPoints me inst ((frm, point) # rest) =
     (case processPoint me inst frm point of
        Inl e \<Rightarrow> Inl e
      | Inr bs \<Rightarrow> (case processEarlyPoints me inst rest of
                     Inl e \<Rightarrow> Inl e
                   | Inr bs' \<Rightarrow> Inr (bs @ bs')))"

definition point_message :: "int \<Rightarrow> string \<Rightarrow> Polynomial \<Rightarrow> int \<Rightarrow> IVSSMessage" where
  "point_message me instanceID poly j =
     \<lparr>im_Type = IVSS_Direct, im_DirectType = Direct_Point, im_To = j, im_From = me,
      im_InstanceID = instanceID, im_Poly = None, im_Point = Some (Evaluate Prime poly j),
      im_PointIdx = j, im_ACastMsg = None\<rparr>"

text \<open>
  The direct-message part of \<^verbatim>\<open>OnMessage\<close>, on the instance of the message. A share
  with a nil polynomial panics in the first \<^verbatim>\<open>Evaluate\<close> of the loop over \<open>1..n\<close>, or,
  if that loop is empty, in \<^verbatim>\<open>processPoint\<close> when an early point is waiting.
\<close>

definition IVSS_onDirect ::
  "int \<Rightarrow> int \<Rightarrow> IVSSMessage \<Rightarrow> IVSSInstance \<Rightarrow> Panic + (IVSSInstance \<times> IVSSMessage list)" where
  "IVSS_onDirect me n msg inst =
     (case im_DirectType msg of
        Direct_Share \<Rightarrow>
          (let inst1 = inst\<lparr>receivedPoly := im_Poly msg, ii_dealer := im_From msg\<rparr>
           in case (if n \<ge> 1
                    then (case im_Poly msg of
                            None \<Rightarrow> Inl NilDereference
                          | Some poly \<Rightarrow> Inr (map (point_message me (im_InstanceID msg) poly) [1..n]))
                    else Inr []) of
                Inl e \<Rightarrow> Inl e
              | Inr points \<Rightarrow>
                  (case processEarlyPoints me inst1 (earlyPoints inst1) of
                     Inl e \<Rightarrow> Inl e
                   | Inr bs \<Rightarrow> Inr (inst1\<lparr>earlyPoints := []\<rparr>, points @ bs)))
      | Direct_Point \<Rightarrow>
          (if receivedPoly inst = None
           then Inr (inst\<lparr>earlyPoints := AList.update (im_From msg) (im_Point msg) (earlyPoints inst)\<rparr>, [])
           else (case processPoint me inst (im_From msg) (im_Point msg) of
                   Inl e \<Rightarrow> Inl e
                 | Inr bs \<Rightarrow> Inr (inst, bs))))"


subsection \<open>Candidate set of the dealer\<close>

text \<open>
  The repository holds two copies of \<^verbatim>\<open>ivss.go\<close>. They differ in
  \<^verbatim>\<open>checkCandidateSet\<close> and \<^verbatim>\<open>checkInterpolationSet\<close> only: one searches for a clique
  of the target size by backtracking (\<^verbatim>\<open>findClique\<close>), the other builds the set in
  one incremental pass. Both are modelled; the handlers take the variant as an argument.
\<close>

datatype IVSSVariant = Backtracking | Incremental

text \<open>
  \<^verbatim>\<open>findClique\<close>: the recursive \<^verbatim>\<open>search\<close>. A nil result is \<open>None\<close>. With a
  negative size \<open>k\<close> neither exit is ever taken and \<^verbatim>\<open>candidates[0]\<close> finally reads an
  empty slice.
\<close>

fun search ::
  "(int \<Rightarrow> int \<Rightarrow> bool) \<Rightarrow> int \<Rightarrow> int list \<Rightarrow> int list \<Rightarrow> Panic + int list option" where
  "search neighbors k candidates currentClique =
     (if int (length currentClique) = k then Inr (Some currentClique)
      else if int (length currentClique) + int (length candidates) < k then Inr None
      else (case candidates of
              [] \<Rightarrow> Inl IndexOutOfRange
            | node # rest \<Rightarrow>
                if list_all (\<lambda>existing. neighbors node existing) currentClique
                then (case search neighbors k rest (currentClique @ [node]) of
                        Inl e \<Rightarrow> Inl e
                      | Inr (Some res) \<Rightarrow> Inr (Some res)
                      | Inr None \<Rightarrow> search neighbors k rest currentClique)
                else search neighbors k rest currentClique))"

definition findClique ::
  "int list \<Rightarrow> int \<Rightarrow> (int \<Rightarrow> int \<Rightarrow> bool) \<Rightarrow> Panic + int list option" where
  "findClique nodes k neighbors = search neighbors k nodes []"

definition mset_payload :: "IVSSInstance \<Rightarrow> int list \<Rightarrow> IVSSPayload" where
  "mset_payload inst m =
     \<lparr>pl_InstanceID = ii_id inst, pl_Type = Payload_MSet, pl_EqualPair = (0, 0),
      pl_MSet = Some (sort m), pl_RevealPoly = None, pl_RevealSender = 0\<rparr>"

text \<open>The backtracking copy: adjacency of mutually confirmed, unflagged pairs, then the search.\<close>

definition candidate_adj :: "CertificationProtocol \<Rightarrow> IVSSInstance \<Rightarrow> int \<Rightarrow> int \<Rightarrow> bool" where
  "candidate_adj cp inst u v =
     (u \<noteq> v \<and> (u, v) \<in> completedEquals inst \<and> (v, u) \<in> completedEquals inst
      \<and> \<not> IsFaultyPair cp u v)"

definition checkCandidateSet_backtracking ::
  "int \<Rightarrow> int \<Rightarrow> int \<Rightarrow> CertificationProtocol \<Rightarrow> IVSSInstance \<Rightarrow> Panic + IVSSMessage list" where
  "checkCandidateSet_backtracking me n t cp inst =
     (if me \<noteq> ii_dealer inst then Inr []
      else if sharingCompleted inst then Inr []
      else (case findClique [1..n] (n - t) (candidate_adj cp inst) of
              Inl e \<Rightarrow> Inl e
            | Inr None \<Rightarrow> Inr []
            | Inr (Some m) \<Rightarrow> Inr [startACast me (mset_payload inst m)]))"

text \<open>The incremental copy: one pass over the candidates \<open>1..n\<close>.\<close>

definition canAdd_candidate :: "CertificationProtocol \<Rightarrow> IVSSInstance \<Rightarrow> int list \<Rightarrow> int \<Rightarrow> bool" where
  "canAdd_candidate cp inst m candidate =
     list_all (\<lambda>inM. (candidate, inM) \<in> completedEquals inst \<and> (inM, candidate) \<in> completedEquals inst
                     \<and> \<not> IsFaultyPair cp candidate inM) m"

definition incremental_mSet :: "int \<Rightarrow> CertificationProtocol \<Rightarrow> IVSSInstance \<Rightarrow> int list" where
  "incremental_mSet n cp inst =
     foldl (\<lambda>m candidate. if canAdd_candidate cp inst m candidate then m @ [candidate] else m) [] [1..n]"

definition checkCandidateSet_incremental ::
  "int \<Rightarrow> int \<Rightarrow> int \<Rightarrow> CertificationProtocol \<Rightarrow> IVSSInstance \<Rightarrow> Panic + IVSSMessage list" where
  "checkCandidateSet_incremental me n t cp inst =
     (if me \<noteq> ii_dealer inst then Inr []
      else if sharingCompleted inst then Inr []
      else (let m = incremental_mSet n cp inst
            in if int (length m) \<ge> n - t then Inr [startACast me (mset_payload inst m)]
               else Inr []))"

fun checkCandidateSet ::
  "IVSSVariant \<Rightarrow> int \<Rightarrow> int \<Rightarrow> int \<Rightarrow> CertificationProtocol \<Rightarrow> IVSSInstance \<Rightarrow> Panic + IVSSMessage list" where
  "checkCandidateSet Backtracking me n t cp inst = checkCandidateSet_backtracking me n t cp inst"
| "checkCandidateSet Incremental me n t cp inst = checkCandidateSet_incremental me n t cp inst"

text \<open>
  The greedy single pass as the specification words it: starting from the empty set,
  candidate \<open>k\<close> of \<open>1..n\<close> is added iff for every \<open>m\<close> already chosen both ordered pairs
  are in \<open>completed_equals\<close> and the pair is not flagged.
\<close>

fun spec_greedy :: "((int \<times> int) set) \<Rightarrow> (int \<Rightarrow> int \<Rightarrow> bool) \<Rightarrow> int list \<Rightarrow> int list \<Rightarrow> int list" where
  "spec_greedy ce flagged M [] = M"
| "spec_greedy ce flagged M (k # ks) =
     (if (\<forall>m \<in> set M. (k, m) \<in> ce \<and> (m, k) \<in> ce \<and> \<not> flagged k m)
      then spec_greedy ce flagged (M @ [k]) ks
      else spec_greedy ce flagged M ks)"

definition spec_candidate_set :: "int \<Rightarrow> CertificationProtocol \<Rightarrow> IVSSInstance \<Rightarrow> int list" where
  "spec_candidate_set n cp inst = spec_greedy (completedEquals inst) (IsFaultyPair cp) [] [1..n]"

text \<open>The MSET broadcasts among the messages a step emits, as the sets they carry.\<close>

definition msets_of :: "IVSSMessage list \<Rightarrow> int list option list" where
  "msets_of bs =
     concat (map (\<lambda>b. case im_ACastMsg b of
                         Some am \<Rightarrow> (case ParseIVSSPayload (am_Val am) of
                                       Some pl \<Rightarrow> if pl_Type pl = Payload_MSet then [pl_MSet pl] else []
                                     | None \<Rightarrow> [])
                       | None \<Rightarrow> []) bs)"

subsection \<open>\<^verbatim>\<open>verifyMSet\<close>\<close>

fun verify_pairs :: "CertificationProtocol \<Rightarrow> IVSSInstance \<Rightarrow> int list \<Rightarrow> bool" where
  "verify_pairs cp inst [] = True"
| "verify_pairs cp inst (u # rest) =
     (list_all (\<lambda>v. (u, v) \<in> completedEquals inst \<and> (v, u) \<in> completedEquals inst
                    \<and> \<not> IsFaultyPair cp u v) rest
      \<and> verify_pairs cp inst rest)"

definition verifyMSet :: "int \<Rightarrow> int \<Rightarrow> CertificationProtocol \<Rightarrow> IVSSInstance \<Rightarrow> int list option \<Rightarrow> bool" where
  "verifyMSet n t cp inst m =
     (let l = (case m of None \<Rightarrow> [] | Some xs \<Rightarrow> xs)
      in if int (length l) < n - t then False else verify_pairs cp inst l)"

subsection \<open>Interpolation set\<close>

definition poly_of :: "(int \<times> Polynomial option) list \<Rightarrow> int \<Rightarrow> Polynomial option" where
  "poly_of polys u = (case map_of polys u of Some (Some q) \<Rightarrow> Some q | _ \<Rightarrow> None)"

definition isConsistent :: "(int \<times> Polynomial option) list \<Rightarrow> int \<Rightarrow> int \<Rightarrow> Panic + bool" where
  "isConsistent polys u v =
     (case poly_of polys u of
        None \<Rightarrow> Inl NilDereference
      | Some polyU \<Rightarrow>
          (case poly_of polys v of
             None \<Rightarrow> Inl NilDereference
           | Some polyV \<Rightarrow> Inr (Evaluate Prime polyU v = Evaluate Prime polyV u)))"

definition interpolation_candidates :: "IVSSInstance \<Rightarrow> int list \<Rightarrow> int list" where
  "interpolation_candidates inst m = filter (\<lambda>k. k \<in> set m) (map fst (reconstructedPolys inst))"

text \<open>
  The end of \<^verbatim>\<open>checkInterpolationSet\<close>, common to both copies: interpolate the secret
  from the constant terms of the chosen polynomials, store it and A-Cast READY.
\<close>

fun constant_terms :: "(int \<times> Polynomial option) list \<Rightarrow> int list \<Rightarrow> Panic + int list" where
  "constant_terms polys [] = Inr []"
| "constant_terms polys (nodeID # rest) =
     (case poly_of polys nodeID of
        None \<Rightarrow> Inl NilDereference
      | Some q \<Rightarrow> (case constant_terms polys rest of
                     Inl e \<Rightarrow> Inl e
                   | Inr vs \<Rightarrow> Inr (Evaluate Prime q 0 # vs)))"

definition ready_payload :: "int \<Rightarrow> IVSSInstance \<Rightarrow> IVSSPayload" where
  "ready_payload me inst =
     \<lparr>pl_InstanceID = ii_id inst, pl_Type = Payload_Ready, pl_EqualPair = (0, 0),
      pl_MSet = None, pl_RevealPoly = None, pl_RevealSender = me\<rparr>"

definition interpolate_and_ready ::
  "int \<Rightarrow> IVSSInstance \<Rightarrow> int list \<Rightarrow> Panic + (IVSSInstance \<times> IVSSMessage list)" where
  "interpolate_and_ready me inst validSet =
     (case constant_terms (reconstructedPolys inst) validSet of
        Inl e \<Rightarrow> Inl e
      | Inr vals \<Rightarrow>
          (case InterpolateAtZero Prime validSet vals of
             Inl e \<Rightarrow> Inl e
           | Inr sec \<Rightarrow> Inr (inst\<lparr>secret := Some sec\<rparr>, [startACast me (ready_payload me inst)])))"

text \<open>
  Incremental copy: a candidate is checked against the members chosen so far, in order;
  the first inconsistency flags the pair and rejects the candidate.
\<close>

fun check_against ::
  "(int \<times> Polynomial option) list \<Rightarrow> int \<Rightarrow> int list \<Rightarrow> CertificationProtocol
     \<Rightarrow> Panic + (bool \<times> CertificationProtocol)" where
  "check_against polys candidate [] cp = Inr (True, cp)"
| "check_against polys candidate (inSet # rest) cp =
     (case isConsistent polys candidate inSet of
        Inl e \<Rightarrow> Inl e
      | Inr False \<Rightarrow> Inr (False, AddFaultyPair candidate inSet cp)
      | Inr True \<Rightarrow> check_against polys candidate rest cp)"

fun build_validSet ::
  "(int \<times> Polynomial option) list \<Rightarrow> int list \<Rightarrow> int list \<Rightarrow> CertificationProtocol
     \<Rightarrow> Panic + (int list \<times> CertificationProtocol)" where
  "build_validSet polys [] validSet cp = Inr (validSet, cp)"
| "build_validSet polys (candidate # rest) validSet cp =
     (case check_against polys candidate validSet cp of
        Inl e \<Rightarrow> Inl e
      | Inr (canAdd, cp') \<Rightarrow>
          build_validSet polys rest (if canAdd then validSet @ [candidate] else validSet) cp')"

text \<open>
  Backtracking copy: the adjacency is computed for every ordered pair of distinct
  positions, flagging each inconsistent pair; then the search.
\<close>

fun flag_row ::
  "(int \<times> Polynomial option) list \<Rightarrow> int \<Rightarrow> int list \<Rightarrow> CertificationProtocol
     \<Rightarrow> Panic + CertificationProtocol" where
  "flag_row polys u [] cp = Inr cp"
| "flag_row polys u (v # rest) cp =
     (case isConsistent polys u v of
        Inl e \<Rightarrow> Inl e
      | Inr c \<Rightarrow> flag_row polys u rest (if c then cp else AddFaultyPair u v cp))"

fun flag_rows ::
  "(int \<times> Polynomial option) list \<Rightarrow> int list \<Rightarrow> nat list \<Rightarrow> CertificationProtocol
     \<Rightarrow> Panic + CertificationProtocol" where
  "flag_rows polys candidates [] cp = Inr cp"
| "flag_rows polys candidates (i # is) cp =
     (case flag_row polys (candidates ! i)
             (map (\<lambda>j. candidates ! j) (filter (\<lambda>j. j \<noteq> i) [0..<length candidates])) cp of
        Inl e \<Rightarrow> Inl e
      | Inr cp' \<Rightarrow> flag_rows polys candidates is cp')"

definition consistency_adj :: "(int \<times> Polynomial option) list \<Rightarrow> int \<Rightarrow> int \<Rightarrow> bool" where
  "consistency_adj polys u v = (isConsistent polys u v = Inr True)"

definition checkInterpolationSet ::
  "IVSSVariant \<Rightarrow> int \<Rightarrow> int \<Rightarrow> int \<Rightarrow> CertificationProtocol \<Rightarrow> IVSSInstance
     \<Rightarrow> Panic + (IVSSInstance \<times> CertificationProtocol \<times> IVSSMessage list)" where
  "checkInterpolationSet variant me n t cp inst =
     (case mSet inst of
        None \<Rightarrow> Inr (inst, cp, [])
      | Some m \<Rightarrow>
          (let candidates = interpolation_candidates inst m;
               target = (if n - 2 * t \<le> 0 then 1 else n - 2 * t)
           in if int (length candidates) < n - 2 * t then Inr (inst, cp, [])
              else (case variant of
                 Incremental \<Rightarrow>
                   (case build_validSet (reconstructedPolys inst) candidates [] cp of
                      Inl e \<Rightarrow> Inl e
                    | Inr (validSet, cp') \<Rightarrow>
                        if int (length validSet) \<ge> target
                        then (case interpolate_and_ready me inst validSet of
                                Inl e \<Rightarrow> Inl e
                              | Inr (inst', bs) \<Rightarrow> Inr (inst', cp', bs))
                        else Inr (inst, cp', []))
               | Backtracking \<Rightarrow>
                   (case flag_rows (reconstructedPolys inst) candidates [0..<length candidates] cp of
                      Inl e \<Rightarrow> Inl e
                    | Inr cp' \<Rightarrow>
                        (case findClique candidates target (consistency_adj (reconstructedPolys inst)) of
                           Inl e \<Rightarrow> Inl e
                         | Inr None \<Rightarrow> Inr (inst, cp', [])
                         | Inr (Some validSet) \<Rightarrow>
                             (case interpolate_and_ready me inst validSet of
                                Inl e \<Rightarrow> Inl e
                              | Inr (inst', bs) \<Rightarrow> Inr (inst', cp', bs)))))))"


subsection \<open>\<^verbatim>\<open>OnACastDelivered\<close>\<close>

definition sharing_complete_result :: "IVSSInstance \<Rightarrow> IVSSResult" where
  "sharing_complete_result inst =
     \<lparr>ir_InstanceID = ii_id inst, ir_Type = ''SHARING_COMPLETE'', ir_Secret = None,
      ir_MSet = mSet inst, ir_Poly = receivedPoly inst\<rparr>"

definition reconstructed_result :: "IVSSInstance \<Rightarrow> IVSSResult" where
  "reconstructed_result inst =
     \<lparr>ir_InstanceID = ii_id inst, ir_Type = ''RECONSTRUCTED'', ir_Secret = secret inst,
      ir_MSet = None, ir_Poly = None\<rparr>"

text \<open>
  The \<^verbatim>\<open>switch payload.Type\<close> of \<^verbatim>\<open>OnACastDelivered\<close>, on the instance of the payload
  and the registry: the new instance, the new registry, the broadcasts and the results.
\<close>

definition IVSS_onPayload ::
  "IVSSVariant \<Rightarrow> int \<Rightarrow> int \<Rightarrow> int \<Rightarrow> IVSSPayload \<Rightarrow> CertificationProtocol \<Rightarrow> IVSSInstance
     \<Rightarrow> Panic + (IVSSInstance \<times> CertificationProtocol \<times> IVSSMessage list \<times> IVSSResult list)" where
  "IVSS_onPayload variant me n t payload cp inst =
     (case pl_Type payload of
        Payload_Equal \<Rightarrow>
          (let inst1 = inst\<lparr>completedEquals := insert (pl_EqualPair payload) (completedEquals inst)\<rparr>
           in case checkCandidateSet variant me n t cp inst1 of
                Inl e \<Rightarrow> Inl e
              | Inr bs \<Rightarrow>
                  if pendingMSet inst1 \<noteq> None \<and> \<not> sharingCompleted inst1
                  then (if verifyMSet n t cp inst1 (pendingMSet inst1)
                        then (let inst2 = inst1\<lparr>mSet := pendingMSet inst1, sharingCompleted := True,
                                                pendingMSet := None\<rparr>
                              in Inr (inst2, cp, bs, [sharing_complete_result inst2]))
                        else Inr (inst1, cp, bs, []))
                  else Inr (inst1, cp, bs, []))
      | Payload_MSet \<Rightarrow>
          (let inst1 = inst\<lparr>pendingMSet := pl_MSet payload\<rparr>
           in if verifyMSet n t cp inst1 (pl_MSet payload)
              then (let inst2 = inst1\<lparr>mSet := pl_MSet payload, sharingCompleted := True,
                                      pendingMSet := None\<rparr>
                    in Inr (inst2, cp, [], [sharing_complete_result inst2]))
              else Inr (inst1, cp, [], []))
      | Payload_Reveal \<Rightarrow>
          (let inst1 = inst\<lparr>reconstructedPolys :=
                              AList.update (pl_RevealSender payload) (pl_RevealPoly payload)
                                (reconstructedPolys inst)\<rparr>
           in case checkInterpolationSet variant me n t cp inst1 of
                Inl e \<Rightarrow> Inl e
              | Inr (inst2, cp', bs) \<Rightarrow> Inr (inst2, cp', bs, []))
      | Payload_Ready \<Rightarrow>
          (let inst1 = inst\<lparr>readyToComplete := insert (pl_RevealSender payload) (readyToComplete inst)\<rparr>
           in if int (card (readyToComplete inst1)) \<ge> n - t \<and> \<not> reconstructed inst1
              then (if secret inst1 \<noteq> None
                    then (let inst2 = inst1\<lparr>reconstructed := True\<rparr>
                          in Inr (inst2, cp, [], [reconstructed_result inst2]))
                    else Inr (inst1, cp, [], []))
              else Inr (inst1, cp, [], [])))"

definition OnACastDelivered ::
  "IVSSVariant \<Rightarrow> IVSSPayload json \<Rightarrow> IVSSService
     \<Rightarrow> Panic + (IVSSService \<times> IVSSMessage list \<times> IVSSResult list)" where
  "OnACastDelivered variant valStr s =
     (case ParseIVSSPayload valStr of
        None \<Rightarrow> Inr (s, [], [])
      | Some payload \<Rightarrow>
          (case IVSS_onPayload variant (is_id s) (is_n s) (is_t s) payload (is_cp s)
                  (IVSS_getInstance s (pl_InstanceID payload) 0) of
             Inl e \<Rightarrow> Inl e
           | Inr (inst', cp', bs, rs) \<Rightarrow>
               Inr (s\<lparr>is_instances := (is_instances s)(pl_InstanceID payload \<mapsto> inst'), is_cp := cp'\<rparr>,
                    bs, rs)))"

text \<open>
  The adapter's \<^verbatim>\<open>SendResult\<close> calls \<^verbatim>\<open>OnACastDelivered\<close> for each value the A-Cast
  engine delivers (it is the last action of the A-Cast handler).
\<close>

fun deliver_values ::
  "IVSSVariant \<Rightarrow> IVSSPayload json list \<Rightarrow> IVSSService
     \<Rightarrow> Panic + (IVSSService \<times> IVSSMessage list \<times> IVSSResult list)" where
  "deliver_values variant [] s = Inr (s, [], [])"
| "deliver_values variant (v # vs) s =
     (case OnACastDelivered variant v s of
        Inl e \<Rightarrow> Inl e
      | Inr (s1, bs1, rs1) \<Rightarrow>
          (case deliver_values variant vs s1 of
             Inl e \<Rightarrow> Inl e
           | Inr (s2, bs2, rs2) \<Rightarrow> Inr (s2, bs1 @ bs2, rs1 @ rs2)))"

subsection \<open>\<^verbatim>\<open>IVSSService.OnMessage\<close>\<close>

definition IVSS_OnMessage ::
  "IVSSVariant \<Rightarrow> IVSSMessage \<Rightarrow> IVSSService
     \<Rightarrow> Panic + (IVSSService \<times> IVSSMessage list \<times> IVSSResult list)" where
  "IVSS_OnMessage variant msg s =
     (if im_Type msg = IVSS_ACast
      then (case im_ACastMsg msg of
              None \<Rightarrow> Inr (s, [], [])
            | Some am \<Rightarrow>
                (case Acast_OnMessage am (is_acast s) of
                   (a', abcs, vals) \<Rightarrow>
                     (case deliver_values variant vals (s\<lparr>is_acast := a'\<rparr>) of
                        Inl e \<Rightarrow> Inl e
                      | Inr (s', bs, rs) \<Rightarrow> Inr (s', map IVSS_wrap abcs @ bs, rs))))
      else if im_To msg \<noteq> is_id s then Inr (s, [], [])
      else (case IVSS_onDirect (is_id s) (is_n s) msg
                   (IVSS_getInstance s (im_InstanceID msg) (im_From msg)) of
              Inl e \<Rightarrow> Inl e
            | Inr (inst', bs) \<Rightarrow>
                Inr (s\<lparr>is_instances := (is_instances s)(im_InstanceID msg \<mapsto> inst')\<rparr>, bs, [])))"

subsection \<open>\<^verbatim>\<open>StartSharing\<close> and \<^verbatim>\<open>StartReconstruction\<close>\<close>

definition share_message :: "int \<Rightarrow> string \<Rightarrow> SymmetricPolynomial \<Rightarrow> int \<Rightarrow> IVSSMessage" where
  "share_message me instanceID poly k =
     \<lparr>im_Type = IVSS_Direct, im_DirectType = Direct_Share, im_To = k, im_From = me,
      im_InstanceID = instanceID, im_Poly = Some (GetUnivariatePolynomial Prime poly k),
      im_Point = None, im_PointIdx = 0, im_ACastMsg = None\<rparr>"

text \<open>
  \<^verbatim>\<open>StartSharing\<close>. The bivariate polynomial is drawn at random by
  \<^verbatim>\<open>NewRandomSymmetricPolynomial\<close>; its outcome is an argument here, \<open>None\<close> when the
  random source fails (the error is returned before anything is sent). Every share
  goes out through \<^verbatim>\<open>ctx.Broadcast\<close>.
\<close>

definition StartSharing ::
  "string \<Rightarrow> SymmetricPolynomial option \<Rightarrow> IVSSService \<Rightarrow> string + IVSSMessage list" where
  "StartSharing instanceID drawn s =
     (case drawn of
        None \<Rightarrow> Inl ''rand''
      | Some poly \<Rightarrow> Inr (map (share_message (is_id s) instanceID poly) [1..is_n s]))"

definition reveal_payload :: "int \<Rightarrow> IVSSInstance \<Rightarrow> IVSSPayload" where
  "reveal_payload me inst =
     \<lparr>pl_InstanceID = ii_id inst, pl_Type = Payload_Reveal, pl_EqualPair = (0, 0),
      pl_MSet = None, pl_RevealPoly = receivedPoly inst, pl_RevealSender = me\<rparr>"

definition StartReconstruction ::
  "string \<Rightarrow> IVSSService \<Rightarrow> IVSSService \<times> (string + IVSSMessage list)" where
  "StartReconstruction instanceID s =
     (let inst = IVSS_getInstance s instanceID 0;
          s1 = s\<lparr>is_instances := (is_instances s)(instanceID \<mapsto> inst)\<rparr>
      in if \<not> sharingCompleted inst
         then (s1, Inl (''sharing not completed for instance '' @ instanceID))
         else if is_id s \<in> set (case mSet inst of None \<Rightarrow> [] | Some m \<Rightarrow> m)
              then (s1, Inr [startACast (is_id s) (reveal_payload (is_id s) inst)])
              else (s1, Inr []))"

section \<open>Transport (services: network.go)\<close>

text \<open>
  \<^verbatim>\<open>Network\<close>: the registered peers, each with its channel; a channel is the list of
  the messages put into it so far. \<^verbatim>\<open>Broadcast\<close> starts one goroutine per registered
  peer that sends the message into the peer's channel; the order in which concurrent
  sends arrive is open, and a send into a full channel waits. The model puts the message
  at the end of every registered channel.
\<close>

type_synonym 'm Network = "int \<rightharpoonup> 'm list"

definition Register :: "int \<Rightarrow> 'm list \<Rightarrow> 'm Network \<Rightarrow> 'm Network" where
  "Register i ch net = net(i \<mapsto> ch)"

definition Broadcast :: "'m \<Rightarrow> 'm Network \<Rightarrow> 'm Network" where
  "Broadcast msg net = (\<lambda>i. case net i of None \<Rightarrow> None | Some ch \<Rightarrow> Some (ch @ [msg]))"

fun Broadcast_all :: "'m list \<Rightarrow> 'm Network \<Rightarrow> 'm Network" where
  "Broadcast_all [] net = net"
| "Broadcast_all (msg # msgs) net = Broadcast_all msgs (Broadcast msg net)"


subsection \<open>The uuid scheme as the specification words it\<close>

definition spec_uuid :: "IVSSPayload \<Rightarrow> string" where
  "spec_uuid pl =
     (case pl_Type pl of
        Payload_Equal \<Rightarrow> pl_InstanceID pl @ ''-EQUAL-'' @ show_int (fst (pl_EqualPair pl))
                           @ ''-'' @ show_int (snd (pl_EqualPair pl))
      | Payload_MSet \<Rightarrow> pl_InstanceID pl @ ''-MSET''
      | Payload_Reveal \<Rightarrow> pl_InstanceID pl @ ''-REVEAL-'' @ show_int (pl_RevealSender pl)
      | Payload_Ready \<Rightarrow> pl_InstanceID pl @ ''-READY-'' @ show_int (pl_RevealSender pl))"

subsection \<open>Concrete instances (n = 4, t = 1)\<close>

text \<open>
  The dealer (node 1) of instance \<open>X\<close> after every EQUAL(i, j) with \<open>i \<noteq> j\<close> among the
  four nodes has been delivered, with nothing flagged.
\<close>

definition all_equals_instance :: IVSSInstance where
  "all_equals_instance =
     (NewIVSSInstance ''X'' 1)\<lparr>completedEquals :=
        {(1, 2), (2, 1), (1, 3), (3, 1), (1, 4), (4, 1), (2, 3), (3, 2), (2, 4), (4, 2), (3, 4), (4, 3)}\<rparr>"

text \<open>The dealer when only the EQUALs among nodes 2, 3 and 4 have been delivered so far.\<close>

definition late_dealer_instance :: IVSSInstance where
  "late_dealer_instance =
     (NewIVSSInstance ''X'' 1)\<lparr>completedEquals := {(2, 3), (3, 2), (2, 4), (4, 2), (3, 4), (4, 3)}\<rparr>"

text \<open>
  Slices of \<open>F(x, y) = 42 + 5x + 5y + 9xy\<close>: \<open>f\<^sub>1(y) = 47 + 14y\<close> and
  \<open>f\<^sub>2(y) = 52 + 23y\<close>. A node that has completed sharing with \<open>M = {1,2,3,4}\<close>, holds
  the revealed slice of node 1, has already seen READY from nodes 1, 2 and 3, and has not
  interpolated the secret yet.
\<close>

definition slice1 :: Polynomial where
  "slice1 = \<lparr>Coeffs = [47, 14]\<rparr>"

definition slice2 :: Polynomial where
  "slice2 = \<lparr>Coeffs = [52, 23]\<rparr>"

definition ready_before_secret :: IVSSInstance where
  "ready_before_secret =
     (NewIVSSInstance ''X'' 1)\<lparr>mSet := Some [1, 2, 3, 4], sharingCompleted := True,
        reconstructedPolys := [(1, Some slice1)], readyToComplete := {1, 2, 3}\<rparr>"

definition reveal_from_2 :: IVSSPayload where
  "reveal_from_2 =
     \<lparr>pl_InstanceID = ''X'', pl_Type = Payload_Reveal, pl_EqualPair = (0, 0),
      pl_MSet = None, pl_RevealPoly = Some slice2, pl_RevealSender = 2\<rparr>"

text \<open>
  Node 2 receives its share of instance \<open>X\<close> from the dealer, node 1: the message, the
  node before and after handling it, and the four point messages it sends.
\<close>

definition share_to_2 :: IVSSMessage where
  "share_to_2 =
     \<lparr>im_Type = IVSS_Direct, im_DirectType = Direct_Share, im_To = 2, im_From = 1,
      im_InstanceID = ''X'', im_Poly = Some slice2, im_Point = None, im_PointIdx = 0,
      im_ACastMsg = None\<rparr>"

definition node2_fresh :: IVSSService where
  "node2_fresh = NewIVSSService 2 4 1 NewCertificationProtocol"

definition node2_after_share :: IVSSService where
  "node2_after_share =
     node2_fresh\<lparr>is_instances := [''X'' \<mapsto> (NewIVSSInstance ''X'' 1)\<lparr>receivedPoly := Some slice2\<rparr>]\<rparr>"

definition points_of_2 :: "IVSSMessage list" where
  "points_of_2 = map (\<lambda>(j, v).
      \<lparr>im_Type = IVSS_Direct, im_DirectType = Direct_Point, im_To = j, im_From = 2,
       im_InstanceID = ''X'', im_Poly = None, im_Point = Some v, im_PointIdx = j,
       im_ACastMsg = None\<rparr>) [(1, 75), (2, 98), (3, 121), (4, 144)]"

text \<open>
  The dealer's polynomial \<open>F(x, y) = 42 + 5x + 5y + 9xy\<close>, a network of four registered
  nodes with empty channels, and node 3 before it has handled anything.
\<close>

definition dealer_poly :: SymmetricPolynomial where
  "dealer_poly = \<lparr>sp_Coeffs = [[42, 5], [5, 9]], sp_Degree = 1\<rparr>"

definition net4 :: "IVSSMessage Network" where
  "net4 = Register 4 [] (Register 3 [] (Register 2 [] (Register 1 [] Map.empty)))"

definition node1_fresh :: IVSSService where
  "node1_fresh = NewIVSSService 1 4 1 NewCertificationProtocol"

definition node3_fresh :: IVSSService where
  "node3_fresh = NewIVSSService 3 4 1 NewCertificationProtocol"


section \<open>Vote (services: vote.go)\<close>

datatype VotePayloadType = Vote_Input | Vote_Vote1 | Vote_Revote

record VotePayload =
  vp_Type :: VotePayloadType
  vp_Sender :: int
  vp_Bit :: int
  vp_Set :: "int list"
  vp_Round :: int

text \<open>
  \<^verbatim>\<open>voteRoundState\<close>. The three tables are Go maps from sender to payload data; they
  are association lists with distinct keys here (the code iterates over them, and sorts
  what it collects).
\<close>

record voteRoundState =
  vr_round :: int
  receivedInputs :: "(int \<times> int) list"
  vr_myA :: "int list"
  sentVote1 :: bool
  receivedVote1 :: "(int \<times> (int list \<times> int)) list"
  vr_myB :: "int list"
  sentRevote :: bool
  receivedRevote :: "(int \<times> (int list \<times> int)) list"
  vr_myC :: "int list"
  vr_finished :: bool

definition newVoteRoundState :: "int \<Rightarrow> voteRoundState" where
  "newVoteRoundState r =
     \<lparr>vr_round = r, receivedInputs = [], vr_myA = [], sentVote1 = False, receivedVote1 = [],
      vr_myB = [], sentRevote = False, receivedRevote = [], vr_myC = [], vr_finished = False\<rparr>"

record VoteResult =
  vres_Value :: int
  vres_Conf :: int
  vres_Round :: int

definition isSubset :: "int list \<Rightarrow> int list \<Rightarrow> bool" where
  "isSubset sub super = list_all (\<lambda>v. v \<in> set super) sub"

text \<open>The majority bit of a list of bits: 1 iff the bits other than 0 outnumber the zeros.\<close>

definition majority_bit :: "int list \<Rightarrow> int" where
  "majority_bit bits =
     (if length (filter (\<lambda>b. b \<noteq> 0) bits) > length (filter (\<lambda>b. b = 0) bits) then 1 else 0)"

text \<open>
  The loops of the decision logic: \<^verbatim>\<open>firstVal\<close> starts at -1, takes the first bit and
  the loop stops at the first bit that differs from it.
\<close>

fun all_same_from :: "int \<Rightarrow> int list \<Rightarrow> int \<times> bool" where
  "all_same_from firstVal [] = (firstVal, True)"
| "all_same_from firstVal (val # rest) =
     (if firstVal = -1 then all_same_from val rest
      else if firstVal \<noteq> val then (firstVal, False)
      else all_same_from firstVal rest)"

definition bit_of :: "(int \<times> (int list \<times> int)) list \<Rightarrow> int \<Rightarrow> int" where
  "bit_of table j = (case map_of table j of None \<Rightarrow> 0 | Some data \<Rightarrow> snd data)"

definition validVote1s :: "voteRoundState \<Rightarrow> int list" where
  "validVote1s st =
     map fst (filter (\<lambda>(sender, data). isSubset (fst data) (map fst (receivedInputs st)))
                     (receivedVote1 st))"

definition validRevotes :: "voteRoundState \<Rightarrow> int list" where
  "validRevotes st =
     map fst (filter (\<lambda>(sender, data). isSubset (fst data) (validVote1s st)) (receivedRevote st))"

definition vote_phase1 :: "int \<Rightarrow> int \<Rightarrow> int \<Rightarrow> voteRoundState \<Rightarrow> voteRoundState \<times> VotePayload list" where
  "vote_phase1 me n t st =
     (if \<not> sentVote1 st \<and> int (length (receivedInputs st)) \<ge> n - t
      then (let A = sort (map fst (receivedInputs st));
                myVote1 = majority_bit (map snd (receivedInputs st));
                st' = st\<lparr>vr_myA := A, sentVote1 := True\<rparr>
            in (st', [\<lparr>vp_Type = Vote_Vote1, vp_Sender = me, vp_Bit = myVote1, vp_Set = A,
                       vp_Round = vr_round st\<rparr>]))
      else (st, []))"

definition vote_phase2 :: "int \<Rightarrow> int \<Rightarrow> int \<Rightarrow> voteRoundState \<Rightarrow> voteRoundState \<times> VotePayload list" where
  "vote_phase2 me n t st =
     (if sentVote1 st \<and> \<not> sentRevote st \<and> int (length (validVote1s st)) \<ge> n - t
      then (let B = sort (validVote1s st);
                myVote2 = majority_bit (map (bit_of (receivedVote1 st)) (validVote1s st));
                st' = st\<lparr>vr_myB := B, sentRevote := True\<rparr>
            in (st', [\<lparr>vp_Type = Vote_Revote, vp_Sender = me, vp_Bit = myVote2, vp_Set = B,
                       vp_Round = vr_round st\<rparr>]))
      else (st, []))"

definition vote_finish :: "voteRoundState \<Rightarrow> int \<Rightarrow> int \<Rightarrow> voteRoundState \<times> VoteResult list" where
  "vote_finish st val conf =
     (st\<lparr>vr_finished := True\<rparr>, [\<lparr>vres_Value = val, vres_Conf = conf, vres_Round = vr_round st\<rparr>])"

text \<open>
  The decision logic: unanimity of the VOTE1 bits over \<open>B\<close> gives confidence 2, else
  unanimity of the REVOTE bits over \<open>C\<close> gives confidence 1, else \<open>(-1, 0)\<close>. The code
  calls \<^verbatim>\<open>finish\<close> with the value and the confidence at each of the three exits.
\<close>

definition vote_decision :: "voteRoundState \<Rightarrow> int \<times> int" where
  "vote_decision st =
     (case all_same_from (-1) (map (bit_of (receivedVote1 st)) (vr_myB st)) of
        (firstVal, allSameB) \<Rightarrow>
          if allSameB \<and> firstVal \<noteq> -1 then (firstVal, 2)
          else (case all_same_from (-1) (map (bit_of (receivedRevote st)) (vr_myC st)) of
                  (firstValC, allSameC) \<Rightarrow>
                    if allSameC \<and> firstValC \<noteq> -1 then (firstValC, 1) else (-1, 0)))"

definition vote_phase3 :: "int \<Rightarrow> int \<Rightarrow> voteRoundState \<Rightarrow> voteRoundState \<times> VoteResult list" where
  "vote_phase3 n t st =
     (if sentRevote st \<and> int (length (validRevotes st)) \<ge> n - t
      then (let st1 = st\<lparr>vr_myC := sort (validRevotes st)\<rparr>
            in vote_finish st1 (fst (vote_decision st1)) (snd (vote_decision st1)))
      else (st, []))"

text \<open>
  \<^verbatim>\<open>checkProgress\<close>: the three phase checks in sequence. The payloads are those handed
  to \<^verbatim>\<open>startACast\<close>, in order. (\<^verbatim>\<open>allInputs\<close>, \<^verbatim>\<open>validVote1s\<close> and \<^verbatim>\<open>validRevotes\<close> are
  computed from the tables, which the phases do not change.)
\<close>

definition Vote_checkProgress ::
  "int \<Rightarrow> int \<Rightarrow> int \<Rightarrow> voteRoundState \<Rightarrow> voteRoundState \<times> VotePayload list \<times> VoteResult list" where
  "Vote_checkProgress me n t st =
     (case vote_phase1 me n t st of (st1, ps1) \<Rightarrow>
        (case vote_phase2 me n t st1 of (st2, ps2) \<Rightarrow>
           (case vote_phase3 n t st2 of (st3, rs) \<Rightarrow> (st3, ps1 @ ps2, rs))))"

text \<open>\<^verbatim>\<open>processDeliveredPayload\<close> on the state of the payload's round.\<close>

definition Vote_processDeliveredPayload ::
  "int \<Rightarrow> int \<Rightarrow> int \<Rightarrow> VotePayload \<Rightarrow> voteRoundState \<Rightarrow> voteRoundState \<times> VotePayload list \<times> VoteResult list" where
  "Vote_processDeliveredPayload me n t p st =
     (if vr_finished st then (st, [], [])
      else Vote_checkProgress me n t
             (case vp_Type p of
                Vote_Input \<Rightarrow> st\<lparr>receivedInputs := AList.update (vp_Sender p) (vp_Bit p) (receivedInputs st)\<rparr>
              | Vote_Vote1 \<Rightarrow> st\<lparr>receivedVote1 :=
                                  AList.update (vp_Sender p) (vp_Set p, vp_Bit p) (receivedVote1 st)\<rparr>
              | Vote_Revote \<Rightarrow> st\<lparr>receivedRevote :=
                                   AList.update (vp_Sender p) (vp_Set p, vp_Bit p) (receivedRevote st)\<rparr>))"

fun Vote_deliveries ::
  "int \<Rightarrow> int \<Rightarrow> int \<Rightarrow> VotePayload list \<Rightarrow> voteRoundState \<Rightarrow> voteRoundState \<times> VotePayload list \<times> VoteResult list" where
  "Vote_deliveries me n t [] st = (st, [], [])"
| "Vote_deliveries me n t (p # ps) st =
     (case Vote_processDeliveredPayload me n t p st of (st1, as1, rs1) \<Rightarrow>
        (case Vote_deliveries me n t ps st1 of (st2, as2, rs2) \<Rightarrow> (st2, as1 @ as2, rs1 @ rs2)))"

text \<open>
  The valid VOTE1 senders as the specification words them: the senders of the delivered
  VOTE1 payloads whose set lies within the own \<open>A\<close>.
\<close>

definition spec_valid_vote1 :: "voteRoundState \<Rightarrow> int set" where
  "spec_valid_vote1 st =
     set (map fst (filter (\<lambda>e. set (fst (snd e)) \<subseteq> set (vr_myA st)) (receivedVote1 st)))"

text \<open>
  A run of node 1 (n = 4, t = 1, round 1): INPUT from 1, 2 and 3 (which fixes \<open>A\<close>), then
  INPUT from 4, then VOTE1 from 1, 2 and 3 with the sets \<open>{1,2,3}\<close>, \<open>{1,2,4}\<close> and
  \<open>{1,2,3,4}\<close>.
\<close>

definition vote_input :: "int \<Rightarrow> int \<Rightarrow> VotePayload" where
  "vote_input j b = \<lparr>vp_Type = Vote_Input, vp_Sender = j, vp_Bit = b, vp_Set = [], vp_Round = 1\<rparr>"

definition vote_vote1 :: "int \<Rightarrow> int list \<Rightarrow> int \<Rightarrow> VotePayload" where
  "vote_vote1 j A b = \<lparr>vp_Type = Vote_Vote1, vp_Sender = j, vp_Bit = b, vp_Set = A, vp_Round = 1\<rparr>"

definition late_input_run :: "VotePayload list" where
  "late_input_run =
     [vote_input 1 1, vote_input 2 1, vote_input 3 1, vote_input 4 0,
      vote_vote1 1 [1, 2, 3] 1, vote_vote1 2 [1, 2, 4] 1, vote_vote1 3 [1, 2, 3, 4] 1]"

definition late_input_state :: voteRoundState where
  "late_input_state =
     \<lparr>vr_round = 1, receivedInputs = [(1, 1), (2, 1), (3, 1), (4, 0)],
      vr_myA = [1, 2, 3], sentVote1 = True,
      receivedVote1 = [(1, [1, 2, 3], 1), (2, [1, 2, 4], 1), (3, [1, 2, 3, 4], 1)],
      vr_myB = [1, 2, 3], sentRevote = True, receivedRevote = [],
      vr_myC = [], vr_finished = False\<rparr>"

text \<open>The state of that run just before the \<^verbatim>\<open>checkProgress\<close> of the last delivery.\<close>

definition before_last_check :: voteRoundState where
  "before_last_check = late_input_state\<lparr>vr_myB := [], sentRevote := False\<rparr>"

text \<open>
  When \<^verbatim>\<open>checkProgress\<close> fixes \<open>B\<close> and \<open>C\<close>, in terms of the state it starts from:
  VOTE1 has been sent or is sent by this call, REVOTE has not been sent, and enough valid
  VOTE1 senders are known; for \<open>C\<close>, REVOTE has been sent or is sent by this call, and
  enough valid REVOTE senders are known.
\<close>

definition forms_B :: "int \<Rightarrow> int \<Rightarrow> voteRoundState \<Rightarrow> bool" where
  "forms_B n t st \<longleftrightarrow>
     (sentVote1 st \<or> int (length (receivedInputs st)) \<ge> n - t) \<and> \<not> sentRevote st
     \<and> int (length (validVote1s st)) \<ge> n - t"

definition forms_C :: "int \<Rightarrow> int \<Rightarrow> voteRoundState \<Rightarrow> bool" where
  "forms_C n t st \<longleftrightarrow>
     (sentRevote st \<or> forms_B n t st) \<and> int (length (validRevotes st)) \<ge> n - t"


section \<open>ICC decision check (services: icc.go)\<close>

datatype ICCPayloadType = ICC_Attach | ICC_Accept | ICC_ReconstructEnabled | ICC_FinalSets

record ICCPayload =
  icp_Type :: ICCPayloadType
  icp_SetT :: "int list"
  icp_SetA :: "int list"
  icp_SetH :: "int list"
  icp_SetS :: "int list"
  icp_Sender :: int

datatype ICCMsgType = ICC_IVSS | ICC_ACast

record ICCMessage =
  icm_Type :: ICCMsgType
  icm_IVSSMsg :: "IVSSMessage option"
  icm_ACastMsg :: "ICCPayload json ACastMessage option"

record ICCResult =
  Coin :: int

text \<open>
  \<^verbatim>\<open>ICCService\<close>: the fields that the decision check and the two handlers feeding it
  read or write. \<^verbatim>\<open>receivedT\<close> is looked up by sender; \<^verbatim>\<open>reconstructedValues\<close> is the
  two-level map dealer \<open>\<rightarrow>\<close> secret index \<open>\<rightarrow>\<close> value, here a map on pairs (a missing
  inner map and a missing or nil entry all read as nil). The sub-services and the
  tables of the earlier steps are the component \<open>icc_rest\<close>.
\<close>

record 'r ICCService =
  icc_id :: int
  icc_n :: int
  icc_t :: int
  icc_round :: int
  icc_u :: int
  receivedT :: "int \<rightharpoonup> int list"
  icc_myA :: "int list"
  sentAccept :: bool
  icc_myS :: "int list"
  sentReconstruct :: bool
  reconstructedValues :: "int \<times> int \<rightharpoonup> int"
  receivedFinalSets :: "(int \<times> int list \<times> int list) list"
  icc_finished :: bool
  icc_rest :: 'r

text \<open>
  The inner loop of \<^verbatim>\<open>checkDecision\<close>: the sum of the reconstructed secrets
  \<open>y\<^sub>k\<^sub>j\<close> over \<open>k\<close> in \<open>T\<^sub>j\<close>; \<open>None\<close> when one of them is missing.
\<close>

fun sum_values :: "(int \<times> int \<rightharpoonup> int) \<Rightarrow> int \<Rightarrow> int list \<Rightarrow> int option" where
  "sum_values rv j [] = Some 0"
| "sum_values rv j (k # ks) =
     (case rv (k, j) of
        None \<Rightarrow> None
      | Some y \<Rightarrow> (case sum_values rv j ks of None \<Rightarrow> None | Some rest \<Rightarrow> Some (y + rest)))"

text \<open>
  The loop over \<open>H\<close>: it stops with \<^verbatim>\<open>allComputed = false\<close> at the first \<open>j\<close> whose
  \<open>T\<^sub>j\<close> or whose values are missing, and otherwise records whether some
  \<open>v\<^sub>j = sum mod u\<close> is zero. \<^verbatim>\<open>big.Int.Mod\<close> panics for \<open>u = 0\<close>.
\<close>

fun scan_H :: "'r ICCService \<Rightarrow> int list \<Rightarrow> bool \<Rightarrow> Panic + (bool \<times> bool)" where
  "scan_H s [] hasZero = Inr (True, hasZero)"
| "scan_H s (j # H) hasZero =
     (case receivedT s j of
        None \<Rightarrow> Inr (False, hasZero)
      | Some Tj \<Rightarrow>
          (case sum_values (reconstructedValues s) j Tj of
             None \<Rightarrow> Inr (False, hasZero)
           | Some sm \<Rightarrow>
               if icc_u s = 0 then Inl DivisionByZero
               else scan_H s H (hasZero \<or> big_Mod sm (icc_u s) = 0)))"

fun scan_final_sets ::
  "'r ICCService \<Rightarrow> (int \<times> int list \<times> int list) list \<Rightarrow> Panic + ('r ICCService \<times> ICCResult list)" where
  "scan_final_sets s [] = Inr (s, [])"
| "scan_final_sets s ((frm, H, S) # rest) =
     (if sentAccept s \<and> sentReconstruct s \<and> isSubset H (icc_myA s) \<and> isSubset S (icc_myS s)
      then (case scan_H s H False of
              Inl e \<Rightarrow> Inl e
            | Inr (allComputed, hasZero) \<Rightarrow>
                if allComputed
                then Inr (s\<lparr>icc_finished := True\<rparr>, [\<lparr>Coin = (if hasZero then 0 else 1)\<rparr>])
                else scan_final_sets s rest)
      else scan_final_sets s rest)"

definition checkDecision :: "'r ICCService \<Rightarrow> Panic + ('r ICCService \<times> ICCResult list)" where
  "checkDecision s = (if icc_finished s then Inr (s, []) else scan_final_sets s (receivedFinalSets s))"

text \<open>
  The notions of the claim, in the words of the specification. A stored pair qualifies
  when \<open>H \<subseteq> my_A\<close>, \<open>S \<subseteq> my_S\<close> (both sets fixed, that is ACCEPT and FINAL_SETS sent) and
  for every \<open>j\<close> in \<open>H\<close> the set \<open>received_T[j]\<close> is there and every \<open>k\<close> in it has a
  recorded reconstructed value. \<open>v\<^sub>j\<close> is the sum of these values modulo \<open>u\<close>.
\<close>

definition values_known :: "'r ICCService \<Rightarrow> int \<Rightarrow> bool" where
  "values_known s j \<longleftrightarrow>
     (\<exists>Tj. receivedT s j = Some Tj \<and> (\<forall>k \<in> set Tj. reconstructedValues s (k, j) \<noteq> None))"

definition spec_qualifies :: "'r ICCService \<Rightarrow> int \<times> int list \<times> int list \<Rightarrow> bool" where
  "spec_qualifies s fs =
     (case fs of (frm, H, S) \<Rightarrow>
        sentAccept s \<and> sentReconstruct s \<and> set H \<subseteq> set (icc_myA s) \<and> set S \<subseteq> set (icc_myS s)
        \<and> (\<forall>j \<in> set H. values_known s j))"

definition spec_v :: "'r ICCService \<Rightarrow> int \<Rightarrow> int" where
  "spec_v s j =
     (\<Sum>k \<leftarrow> the (receivedT s j). the (reconstructedValues s (k, j))) mod icc_u s"

definition spec_coin :: "'r ICCService \<Rightarrow> int list \<Rightarrow> int" where
  "spec_coin s H = (if \<exists>j \<in> set H. spec_v s j = 0 then 0 else 1)"

text \<open>
  A run of decision checks: before each check the handlers of the instance change the
  state in some way (each step is a state transformer); none of them resets
  \<^verbatim>\<open>finished\<close>, which is written by \<^verbatim>\<open>checkDecision\<close> only.
\<close>

fun decision_run ::
  "('r ICCService \<Rightarrow> 'r ICCService) list \<Rightarrow> 'r ICCService \<Rightarrow> Panic + ('r ICCService \<times> ICCResult list)" where
  "decision_run [] s = Inr (s, [])"
| "decision_run (f # fs) s =
     (case checkDecision (f s) of
        Inl e \<Rightarrow> Inl e
      | Inr (s1, rs1) \<Rightarrow>
          (case decision_run fs s1 of
             Inl e \<Rightarrow> Inl e
           | Inr (s2, rs2) \<Rightarrow> Inr (s2, rs1 @ rs2)))"

definition keeps_finished :: "('r ICCService \<Rightarrow> 'r ICCService) \<Rightarrow> bool" where
  "keeps_finished f = (\<forall>s. icc_finished (f s) = icc_finished s)"

text \<open>
  A node (n = 4, t = 1, u = 4) with \<open>my_A = my_S = {1,2,3}\<close>, the sets \<open>T\<close> of 1, 2 and 3
  all \<open>{1,2,3}\<close>, two stored FINAL_SETS pairs, and the reconstructed secrets
  \<open>y\<^sub>k\<^sub>j = k + j\<close> for the dealers and indices 1..3: the first pair names node 4 and
  does not qualify, the second qualifies; \<open>v\<^sub>1 = 9 mod 4\<close>, \<open>v\<^sub>2 = 12 mod 4 = 0\<close>.
\<close>

definition icc_example :: "unit ICCService" where
  "icc_example =
     \<lparr>icc_id = 1, icc_n = 4, icc_t = 1, icc_round = 1, icc_u = 4,
      receivedT = [1 \<mapsto> [1, 2, 3], 2 \<mapsto> [1, 2, 3], 3 \<mapsto> [1, 2, 3]],
      icc_myA = [1, 2, 3], sentAccept = True, icc_myS = [1, 2, 3], sentReconstruct = True,
      reconstructedValues = (\<lambda>(k, j). if k \<in> {1, 2, 3} \<and> j \<in> {1, 2, 3} then Some (k + j) else None),
      receivedFinalSets = [(4, [1, 2, 4], [1, 2, 4]), (2, [1, 2], [1, 2, 3])],
      icc_finished = False, icc_rest = ()\<rparr>"


section \<open>ABA termination gadget (services: aba.go)\<close>

record CompletePayload =
  cpl_Sender :: int
  cpl_Value :: int

definition CompletePayload_String :: "CompletePayload \<Rightarrow> CompletePayload json" where
  "CompletePayload_String p = Json p"

fun ParseCompletePayload :: "CompletePayload json \<Rightarrow> CompletePayload option" where
  "ParseCompletePayload (Json p) = Some p"
| "ParseCompletePayload (Malformed s) = None"

datatype ABAMsgType = ABA_Vote | ABA_ICC | ABA_Complete

datatype VoteMsgType = Vote_ACast

record VoteMessage =
  vm_Type :: VoteMsgType
  vm_ACastMsg :: "VotePayload json ACastMessage option"

record ABAMessage =
  abm_Type :: ABAMsgType
  abm_Round :: int
  abm_VoteMsg :: "VoteMessage option"
  abm_ICCMsg :: "ICCMessage option"
  abm_CompleteMsg :: "CompletePayload json ACastMessage option"

definition complete_wrap :: "CompletePayload json ACastMessage \<Rightarrow> ABAMessage" where
  "complete_wrap am =
     \<lparr>abm_Type = ABA_Complete, abm_Round = 0, abm_VoteMsg = None, abm_ICCMsg = None,
      abm_CompleteMsg = Some am\<rparr>"

text \<open>
  \<^verbatim>\<open>ABAService\<close>: the fields the termination gadget reads or writes. \<^verbatim>\<open>completeCounts\<close>
  maps a value to the set of senders (a missing key is the empty set). The Vote and ICC
  sub-services, the results of the current round, the registry and the buffer of future
  messages are the component \<open>aba_rest\<close>, which the gadget does not touch.
\<close>

record 'r ABAService =
  aba_id :: int
  aba_n :: int
  aba_t :: int
  aba_estimate :: int
  aba_round :: int
  acastComplete :: "CompletePayload json AcastService"
  completeCounts :: "int \<Rightarrow> int set"
  decided :: bool
  decision :: int
  hasBroadcastComplete :: bool
  aba_rest :: 'r

definition NewABAService :: "int \<Rightarrow> int \<Rightarrow> int \<Rightarrow> int \<Rightarrow> 'r \<Rightarrow> 'r ABAService" where
  "NewABAService i n t initialEstimate rest =
     \<lparr>aba_id = i, aba_n = n, aba_t = t, aba_estimate = initialEstimate, aba_round = 0,
      acastComplete = NewAcastService i n t, completeCounts = (\<lambda>_. {}), decided = False,
      decision = 0, hasBroadcastComplete = False, aba_rest = rest\<rparr>"

text \<open>
  \<^verbatim>\<open>NewACastMessage\<close> derives the uuid from a SHA-256 over the value, the sender and the
  clock; the uuid is an argument here.
\<close>

definition NewACastMessage :: "string \<Rightarrow> 'v \<Rightarrow> int \<Rightarrow> 'v ACastMessage" where
  "NewACastMessage uuid val frm = \<lparr>am_Type = MSG, am_UUID = uuid, am_Val = val, am_From = frm\<rparr>"

text \<open>
  \<^verbatim>\<open>broadcastComplete\<close>: broadcast the MSG envelope, then hand it to the own A-Cast
  engine. On a MSG envelope the engine never delivers (\<open>Acast_MSG_no_result\<close>), so the
  adapter's \<^verbatim>\<open>SendResult\<close> is not reached from here.
\<close>

definition broadcastComplete ::
  "string \<Rightarrow> int \<Rightarrow> 'r ABAService \<Rightarrow> 'r ABAService \<times> ABAMessage list" where
  "broadcastComplete uuid val s =
     (let msg = NewACastMessage uuid (CompletePayload_String \<lparr>cpl_Sender = aba_id s, cpl_Value = val\<rparr>)
                  (aba_id s)
      in case Acast_OnMessage msg (acastComplete s) of
           (a', bs, rs) \<Rightarrow> (s\<lparr>acastComplete := a'\<rparr>, complete_wrap msg # map complete_wrap bs))"

definition handleCompleteDelivery ::
  "string \<Rightarrow> CompletePayload json \<Rightarrow> 'r ABAService
     \<Rightarrow> 'r ABAService \<times> ABAMessage list \<times> int list" where
  "handleCompleteDelivery uuid valStr s =
     (case ParseCompletePayload valStr of
        None \<Rightarrow> (s, [], [])
      | Some payload \<Rightarrow>
          (let s1 = s\<lparr>completeCounts := (completeCounts s)
                        (cpl_Value payload := insert (cpl_Sender payload)
                                                (completeCounts s (cpl_Value payload)))\<rparr>;
               count = int (card (completeCounts s1 (cpl_Value payload)))
           in if count \<ge> aba_t s1 + 1 \<and> \<not> decided s1
              then (let s2 = s1\<lparr>decided := True, decision := cpl_Value payload\<rparr>
                    in if \<not> hasBroadcastComplete s2
                       then (case broadcastComplete uuid (decision s2) s2 of
                               (s3, bs) \<Rightarrow> (s3\<lparr>hasBroadcastComplete := True\<rparr>, bs, [decision s2]))
                       else (s2, [], [decision s2]))
              else (s1, [], [])))"

text \<open>
  A run of COMPLETE deliveries; each delivery comes with the uuid that a
  \<^verbatim>\<open>broadcastComplete\<close> triggered by it would use.
\<close>

fun completeDeliveries ::
  "(string \<times> CompletePayload json) list \<Rightarrow> 'r ABAService
     \<Rightarrow> 'r ABAService \<times> ABAMessage list \<times> int list" where
  "completeDeliveries [] s = (s, [], [])"
| "completeDeliveries ((uuid, valStr) # rest) s =
     (case handleCompleteDelivery uuid valStr s of
        (s1, bs1, rs1) \<Rightarrow>
          (case completeDeliveries rest s1 of
             (s2, bs2, rs2) \<Rightarrow> (s2, bs1 @ bs2, rs1 @ rs2)))"

definition complete_from :: "int \<Rightarrow> int \<Rightarrow> string \<times> CompletePayload json" where
  "complete_from j v = (''c'' @ show_int j, Json \<lparr>cpl_Sender = j, cpl_Value = v\<rparr>)"

text \<open>
  The delivery of COMPLETE(sender, v) takes the count of \<open>v\<close> to the threshold \<open>t + 1\<close>
  while the node is undecided.
\<close>

definition reaches :: "int \<Rightarrow> int \<Rightarrow> 'r ABAService \<Rightarrow> bool" where
  "reaches sndr v s \<longleftrightarrow>
     \<not> decided s \<and> int (card (insert sndr (completeCounts s v))) \<ge> aba_t s + 1"

definition own_complete :: "string \<Rightarrow> int \<Rightarrow> 'r ABAService \<Rightarrow> ABAMessage" where
  "own_complete uuid v s =
     complete_wrap (NewACastMessage uuid (Json \<lparr>cpl_Sender = aba_id s, cpl_Value = v\<rparr>) (aba_id s))"

definition aba_fresh :: "unit ABAService" where
  "aba_fresh = NewABAService 1 4 1 1 ()"

definition aba_one_complete :: "unit ABAService" where
  "aba_one_complete = aba_fresh\<lparr>completeCounts := (\<lambda>_. {})(1 := {2})\<rparr>"

definition aba_decided :: "unit ABAService" where
  "aba_decided =
     aba_fresh\<lparr>completeCounts := (\<lambda>_. {})(1 := {3, 2}), decided := True, decision := 1,
       hasBroadcastComplete := True,
       acastComplete := (NewAcastService 1 4 1)
         \<lparr>as_instances := [''c3'' \<mapsto> NewACastInstance\<lparr>sentEcho := True\<rparr>]\<rparr>\<rparr>"

definition three_completes :: "(string \<times> CompletePayload json) list" where
  "three_completes = [complete_from 2 1, complete_from 3 0, complete_from 4 1]"

text \<open>
  The invariant of a run of deliveries: all sender sets are finite and the node is decided
  exactly when some value has reached the threshold.
\<close>

definition complete_inv :: "int \<Rightarrow> 'r ABAService \<Rightarrow> bool" where
  "complete_inv t s \<longleftrightarrow>
     aba_t s = t \<and> (\<forall>w. finite (completeCounts s w)) \<and>
     (decided s \<longleftrightarrow> (\<exists>w. int (card (completeCounts s w)) \<ge> t + 1))"


section \<open>The delivery handlers of Vote, ICC and ABA with their A-Cast engines\<close>

text \<open>
  The layers above A-Cast start an A-Cast with \<^verbatim>\<open>NewACastMessage\<close>, which draws the
  uuid from a hash of the value, the sender and the clock. The handlers below take the
  draw as an argument \<open>uuid\<close>: the uuid given to the A-Cast of a value. A started message
  is broadcast and then handed to the node's own engine; the engine never delivers on a
  MSG message, so the adapter's \<^verbatim>\<open>SendResult\<close> is not reached from there.
\<close>

subsection \<open>Vote: \<^verbatim>\<open>VoteService\<close>\<close>

definition VotePayload_String :: "VotePayload \<Rightarrow> VotePayload json" where
  "VotePayload_String p = Json p"

fun ParseVotePayload :: "VotePayload json \<Rightarrow> VotePayload option" where
  "ParseVotePayload (Json p) = Some p"
| "ParseVotePayload (Malformed s) = None"

record VoteService =
  vs_id :: int
  vs_n :: int
  vs_t :: int
  vs_acast :: "VotePayload json AcastService"
  vs_rounds :: "int \<rightharpoonup> voteRoundState"

definition NewVoteService :: "int \<Rightarrow> int \<Rightarrow> int \<Rightarrow> VoteService" where
  "NewVoteService i n t =
     \<lparr>vs_id = i, vs_n = n, vs_t = t, vs_acast = NewAcastService i n t, vs_rounds = Map.empty\<rparr>"

definition Vote_getRoundState :: "VoteService \<Rightarrow> int \<Rightarrow> voteRoundState" where
  "Vote_getRoundState s r = (case vs_rounds s r of None \<Rightarrow> newVoteRoundState r | Some st \<Rightarrow> st)"

definition vote_wrap :: "VotePayload json ACastMessage \<Rightarrow> VoteMessage" where
  "vote_wrap am = \<lparr>vm_Type = Vote_ACast, vm_ACastMsg = Some am\<rparr>"

definition Vote_startACast ::
  "(VotePayload json \<Rightarrow> string) \<Rightarrow> VotePayload \<Rightarrow> VoteService \<Rightarrow> VoteService \<times> VoteMessage list" where
  "Vote_startACast uuid payload s =
     (let val = VotePayload_String payload;
          msg = NewACastMessage (uuid val) val (vs_id s)
      in case Acast_OnMessage msg (vs_acast s) of
           (a', bs, rs) \<Rightarrow> (s\<lparr>vs_acast := a'\<rparr>, vote_wrap msg # map vote_wrap bs))"

fun Vote_startACasts ::
  "(VotePayload json \<Rightarrow> string) \<Rightarrow> VotePayload list \<Rightarrow> VoteService \<Rightarrow> VoteService \<times> VoteMessage list" where
  "Vote_startACasts uuid [] s = (s, [])"
| "Vote_startACasts uuid (p # ps) s =
     (case Vote_startACast uuid p s of
        (s1, bs1) \<Rightarrow> (case Vote_startACasts uuid ps s1 of (s2, bs2) \<Rightarrow> (s2, bs1 @ bs2)))"

text \<open>
  \<^verbatim>\<open>processDeliveredPayload\<close> on the service: the state of the payload's round is
  fetched (and created when missing), the round-level handler runs on it, and the
  payloads it hands to \<^verbatim>\<open>startACast\<close> are started in order. The round state and the
  engine are disjoint parts of the service, so the A-Casts can be started after the round
  state has been computed.
\<close>

definition VoteService_processDeliveredPayload ::
  "(VotePayload json \<Rightarrow> string) \<Rightarrow> VotePayload \<Rightarrow> VoteService
     \<Rightarrow> VoteService \<times> VoteMessage list \<times> VoteResult list" where
  "VoteService_processDeliveredPayload uuid p s =
     (case Vote_processDeliveredPayload (vs_id s) (vs_n s) (vs_t s) p
             (Vote_getRoundState s (vp_Round p)) of
        (st', ps, rs) \<Rightarrow>
          (case Vote_startACasts uuid ps (s\<lparr>vs_rounds := (vs_rounds s)(vp_Round p \<mapsto> st')\<rparr>) of
             (s', bs) \<Rightarrow> (s', bs, rs)))"

text \<open>The adapter's \<^verbatim>\<open>SendResult\<close>: parse the delivered value and process the payload.\<close>

definition Vote_SendResult ::
  "(VotePayload json \<Rightarrow> string) \<Rightarrow> VotePayload json \<Rightarrow> VoteService
     \<Rightarrow> VoteService \<times> VoteMessage list \<times> VoteResult list" where
  "Vote_SendResult uuid res s =
     (case ParseVotePayload res of
        None \<Rightarrow> (s, [], [])
      | Some p \<Rightarrow> VoteService_processDeliveredPayload uuid p s)"

fun Vote_deliver_values ::
  "(VotePayload json \<Rightarrow> string) \<Rightarrow> VotePayload json list \<Rightarrow> VoteService
     \<Rightarrow> VoteService \<times> VoteMessage list \<times> VoteResult list" where
  "Vote_deliver_values uuid [] s = (s, [], [])"
| "Vote_deliver_values uuid (v # vs) s =
     (case Vote_SendResult uuid v s of
        (s1, bs1, rs1) \<Rightarrow>
          (case Vote_deliver_values uuid vs s1 of
             (s2, bs2, rs2) \<Rightarrow> (s2, bs1 @ bs2, rs1 @ rs2)))"

text \<open>
  \<^verbatim>\<open>VoteService.OnMessage\<close>: the envelope goes to the engine; the engine's broadcasts
  are wrapped, and its delivery (the last action of the engine) goes to \<^verbatim>\<open>SendResult\<close>.
\<close>

definition Vote_OnMessage ::
  "(VotePayload json \<Rightarrow> string) \<Rightarrow> VoteMessage \<Rightarrow> VoteService
     \<Rightarrow> VoteService \<times> VoteMessage list \<times> VoteResult list" where
  "Vote_OnMessage uuid msg s =
     (if vm_Type msg = Vote_ACast
      then (case vm_ACastMsg msg of
              None \<Rightarrow> (s, [], [])
            | Some am \<Rightarrow>
                (case Acast_OnMessage am (vs_acast s) of
                   (a', abcs, vals) \<Rightarrow>
                     (case Vote_deliver_values uuid vals (s\<lparr>vs_acast := a'\<rparr>) of
                        (s', bs, rs) \<Rightarrow> (s', map vote_wrap abcs @ bs, rs))))
      else (s, [], []))"

subsection \<open>ICC: \<^verbatim>\<open>ICCService\<close> with its sub-services\<close>

definition ICCPayload_String :: "ICCPayload \<Rightarrow> ICCPayload json" where
  "ICCPayload_String p = Json p"

fun ParseICCPayload :: "ICCPayload json \<Rightarrow> ICCPayload option" where
  "ParseICCPayload (Json p) = Some p"
| "ParseICCPayload (Malformed s) = None"

text \<open>
  The whole \<^verbatim>\<open>ICCService\<close>. The tables the code iterates over
  (\<^verbatim>\<open>completedSecretsCount\<close>, \<^verbatim>\<open>receivedT\<close>, \<^verbatim>\<open>receivedA\<close>) are association lists with
  distinct keys; what is collected from them is sorted before use. \<^verbatim>\<open>completedSecrets\<close>
  is the set of the (dealer, index) pairs stored as \<^verbatim>\<open>true\<close>. The table \<^verbatim>\<open>receivedS\<close> is
  never read or written. A nil set and an empty set are the same list here (the code never
  compares these slices with \<^verbatim>\<open>nil\<close>).
\<close>

record ICCNode =
  icn_id :: int
  icn_n :: int
  icn_t :: int
  icn_round :: int
  icn_u :: int
  icn_ivss :: IVSSService
  icn_acast :: "ICCPayload json AcastService"
  icn_completedSecretsCount :: "(int \<times> int) list"
  icn_completedSecrets :: "(int \<times> int) set"
  icn_myT :: "int list"
  icn_sentAttach :: bool
  icn_receivedT :: "(int \<times> int list) list"
  icn_myA :: "int list"
  icn_sentAccept :: bool
  icn_receivedA :: "(int \<times> int list) list"
  icn_myS :: "int list"
  icn_sentReconstruct :: bool
  icn_myH :: "int list"
  icn_reconstructedValues :: "int \<times> int \<rightharpoonup> int"
  icn_receivedFinalSets :: "(int \<times> int list \<times> int list) list"
  icn_finished :: bool

definition NewICCNode :: "int \<Rightarrow> int \<Rightarrow> int \<Rightarrow> int \<Rightarrow> int \<Rightarrow> CertificationProtocol \<Rightarrow> ICCNode" where
  "NewICCNode i n t r u cp =
     \<lparr>icn_id = i, icn_n = n, icn_t = t, icn_round = r, icn_u = u,
      icn_ivss = NewIVSSService i n t cp, icn_acast = NewAcastService i n t,
      icn_completedSecretsCount = [], icn_completedSecrets = {}, icn_myT = [],
      icn_sentAttach = False, icn_receivedT = [], icn_myA = [], icn_sentAccept = False,
      icn_receivedA = [], icn_myS = [], icn_sentReconstruct = False, icn_myH = [],
      icn_reconstructedValues = Map.empty, icn_receivedFinalSets = [], icn_finished = False\<rparr>"

definition getInstanceID :: "int \<Rightarrow> int \<Rightarrow> int \<Rightarrow> string" where
  "getInstanceID r dealer secretIdx =
     ''ICC-'' @ show_int r @ ''-'' @ show_int dealer @ ''-'' @ show_int secretIdx"

definition icc_acast_wrap :: "ICCPayload json ACastMessage \<Rightarrow> ICCMessage" where
  "icc_acast_wrap am = \<lparr>icm_Type = ICC_ACast, icm_IVSSMsg = None, icm_ACastMsg = Some am\<rparr>"

definition icc_ivss_wrap :: "IVSSMessage \<Rightarrow> ICCMessage" where
  "icc_ivss_wrap m = \<lparr>icm_Type = ICC_IVSS, icm_IVSSMsg = Some m, icm_ACastMsg = None\<rparr>"

definition ICC_startACast ::
  "(ICCPayload json \<Rightarrow> string) \<Rightarrow> ICCPayload \<Rightarrow> ICCNode \<Rightarrow> ICCNode \<times> ICCMessage list" where
  "ICC_startACast uuid payload s =
     (let val = ICCPayload_String payload;
          msg = NewACastMessage (uuid val) val (icn_id s)
      in case Acast_OnMessage msg (icn_acast s) of
           (a', bs, rs) \<Rightarrow> (s\<lparr>icn_acast := a'\<rparr>, icc_acast_wrap msg # map icc_acast_wrap bs))"

text \<open>
  \<^verbatim>\<open>startReconstruction\<close>: for every \<open>j\<close> of the own \<open>A\<close> whose \<open>T\<^sub>j\<close> is known and every
  \<open>k\<close> of \<open>T\<^sub>j\<close>, the reconstruction of the instance of dealer \<open>k\<close> and index \<open>j\<close> is started
  at the IVSS sub-service; an error it returns is dropped.
\<close>

definition reconstruction_ids :: "ICCNode \<Rightarrow> string list" where
  "reconstruction_ids s =
     concat (map (\<lambda>j. case map_of (icn_receivedT s) j of
                         None \<Rightarrow> []
                       | Some Tj \<Rightarrow> map (\<lambda>k. getInstanceID (icn_round s) k j) Tj)
                 (icn_myA s))"

fun reconstruct_instances :: "string list \<Rightarrow> IVSSService \<Rightarrow> IVSSService \<times> IVSSMessage list" where
  "reconstruct_instances [] v = (v, [])"
| "reconstruct_instances (i # is) v =
     (case StartReconstruction i v of
        (v1, res) \<Rightarrow>
          (case reconstruct_instances is v1 of
             (v2, bs2) \<Rightarrow> (v2, (case res of Inl err \<Rightarrow> [] | Inr bs1 \<Rightarrow> bs1) @ bs2)))"

definition ICC_startReconstruction :: "ICCNode \<Rightarrow> ICCNode \<times> ICCMessage list" where
  "ICC_startReconstruction s =
     (case reconstruct_instances (reconstruction_ids s) (icn_ivss s) of
        (v', bs) \<Rightarrow> (s\<lparr>icn_ivss := v'\<rparr>, map icc_ivss_wrap bs))"

text \<open>
  The steps 2, 3 and 4 of \<^verbatim>\<open>checkProgress\<close>. Each collects a set from a table (the
  dealers all of whose \<open>n\<close> secrets are complete; the senders whose \<open>T\<close> lies within the
  own \<open>T\<close>; the senders whose \<open>A\<close> lies within the own \<open>A\<close>) and, when the step has not
  been taken, the step before it has, and the set has at least \<open>n - t\<close> members, stores the
  sorted set, latches the flag and A-Casts the set.
\<close>

definition icc_T_set :: "ICCNode \<Rightarrow> int list" where
  "icc_T_set s = map fst (filter (\<lambda>(dealer, count). count = icn_n s) (icn_completedSecretsCount s))"

definition icc_A_set :: "ICCNode \<Rightarrow> int list" where
  "icc_A_set s = map fst (filter (\<lambda>(j, Tj). isSubset Tj (icn_myT s)) (icn_receivedT s))"

definition icc_S_set :: "ICCNode \<Rightarrow> int list" where
  "icc_S_set s = map fst (filter (\<lambda>(j, Aj). isSubset Aj (icn_myA s)) (icn_receivedA s))"

definition icc_step_attach ::
  "(ICCPayload json \<Rightarrow> string) \<Rightarrow> ICCNode \<Rightarrow> ICCNode \<times> ICCMessage list" where
  "icc_step_attach uuid s =
     (if \<not> icn_sentAttach s \<and> int (length (icc_T_set s)) \<ge> icn_n s - icn_t s
      then (let s1 = s\<lparr>icn_myT := sort (icc_T_set s), icn_sentAttach := True\<rparr>
            in ICC_startACast uuid
                 \<lparr>icp_Type = ICC_Attach, icp_SetT = icn_myT s1, icp_SetA = [], icp_SetH = [],
                  icp_SetS = [], icp_Sender = icn_id s1\<rparr> s1)
      else (s, []))"

definition icc_step_accept ::
  "(ICCPayload json \<Rightarrow> string) \<Rightarrow> ICCNode \<Rightarrow> ICCNode \<times> ICCMessage list" where
  "icc_step_accept uuid s =
     (if \<not> icn_sentAccept s \<and> icn_sentAttach s \<and> int (length (icc_A_set s)) \<ge> icn_n s - icn_t s
      then (let s1 = s\<lparr>icn_myA := sort (icc_A_set s), icn_sentAccept := True\<rparr>
            in ICC_startACast uuid
                 \<lparr>icp_Type = ICC_Accept, icp_SetT = [], icp_SetA = icn_myA s1, icp_SetH = [],
                  icp_SetS = [], icp_Sender = icn_id s1\<rparr> s1)
      else (s, []))"

definition icc_step_reconstruct ::
  "(ICCPayload json \<Rightarrow> string) \<Rightarrow> ICCNode \<Rightarrow> ICCNode \<times> ICCMessage list" where
  "icc_step_reconstruct uuid s =
     (if \<not> icn_sentReconstruct s \<and> icn_sentAccept s \<and> int (length (icc_S_set s)) \<ge> icn_n s - icn_t s
      then (let s1 = s\<lparr>icn_myS := sort (icc_S_set s), icn_sentReconstruct := True,
                       icn_myH := icn_myA s\<rparr>
            in case ICC_startACast uuid
                      \<lparr>icp_Type = ICC_FinalSets, icp_SetT = [], icp_SetA = [],
                       icp_SetH = icn_myH s1, icp_SetS = icn_myS s1, icp_Sender = icn_id s1\<rparr> s1 of
                 (s2, bs1) \<Rightarrow>
                   (case ICC_startReconstruction s2 of
                      (s3, bs2) \<Rightarrow> (s3, bs1 @ bs2)))
      else (s, []))"

text \<open>
  Step 6, \<^verbatim>\<open>checkDecision\<close>, is the decision check of the previous section on the fields
  it reads; it writes \<^verbatim>\<open>finished\<close> only.
\<close>

definition decision_view :: "ICCNode \<Rightarrow> unit ICCService" where
  "decision_view s =
     \<lparr>icc_id = icn_id s, icc_n = icn_n s, icc_t = icn_t s, icc_round = icn_round s, icc_u = icn_u s,
      receivedT = map_of (icn_receivedT s), icc_myA = icn_myA s, sentAccept = icn_sentAccept s,
      icc_myS = icn_myS s, sentReconstruct = icn_sentReconstruct s,
      reconstructedValues = icn_reconstructedValues s,
      receivedFinalSets = icn_receivedFinalSets s, icc_finished = icn_finished s, icc_rest = ()\<rparr>"

definition ICC_checkDecision :: "ICCNode \<Rightarrow> Panic + (ICCNode \<times> ICCResult list)" where
  "ICC_checkDecision s =
     (case checkDecision (decision_view s) of
        Inl e \<Rightarrow> Inl e
      | Inr (v, rs) \<Rightarrow> Inr (s\<lparr>icn_finished := icc_finished v\<rparr>, rs))"

definition ICC_checkProgress ::
  "(ICCPayload json \<Rightarrow> string) \<Rightarrow> ICCNode \<Rightarrow> Panic + (ICCNode \<times> ICCMessage list \<times> ICCResult list)" where
  "ICC_checkProgress uuid s =
     (case icc_step_attach uuid s of
        (s1, bs1) \<Rightarrow>
          (case icc_step_accept uuid s1 of
             (s2, bs2) \<Rightarrow>
               (case icc_step_reconstruct uuid s2 of
                  (s3, bs3) \<Rightarrow>
                    (case ICC_checkDecision s3 of
                       Inl e \<Rightarrow> Inl e
                     | Inr (s4, rs) \<Rightarrow> Inr (s4, bs1 @ bs2 @ bs3, rs)))))"

text \<open>\<^verbatim>\<open>processDeliveredPayload\<close> and the adapter's \<^verbatim>\<open>SendResult\<close>.\<close>

definition ICC_processDeliveredPayload ::
  "(ICCPayload json \<Rightarrow> string) \<Rightarrow> ICCPayload \<Rightarrow> ICCNode
     \<Rightarrow> Panic + (ICCNode \<times> ICCMessage list \<times> ICCResult list)" where
  "ICC_processDeliveredPayload uuid p s =
     ICC_checkProgress uuid
       (case icp_Type p of
          ICC_Attach \<Rightarrow> s\<lparr>icn_receivedT := AList.update (icp_Sender p) (icp_SetT p) (icn_receivedT s)\<rparr>
        | ICC_Accept \<Rightarrow> s\<lparr>icn_receivedA := AList.update (icp_Sender p) (icp_SetA p) (icn_receivedA s)\<rparr>
        | ICC_ReconstructEnabled \<Rightarrow> s
        | ICC_FinalSets \<Rightarrow>
            s\<lparr>icn_receivedFinalSets :=
                 icn_receivedFinalSets s @ [(icp_Sender p, icp_SetH p, icp_SetS p)]\<rparr>)"

definition ICC_SendResult ::
  "(ICCPayload json \<Rightarrow> string) \<Rightarrow> ICCPayload json \<Rightarrow> ICCNode
     \<Rightarrow> Panic + (ICCNode \<times> ICCMessage list \<times> ICCResult list)" where
  "ICC_SendResult uuid res s =
     (case ParseICCPayload res of
        None \<Rightarrow> Inr (s, [], [])
      | Some p \<Rightarrow> ICC_processDeliveredPayload uuid p s)"

subsection \<open>ABA: the COMPLETE envelope\<close>

text \<open>
  The \<^verbatim>\<open>ABA_Complete\<close> case of \<^verbatim>\<open>dispatchMessage\<close>, which \<^verbatim>\<open>OnMessage\<close> calls at once for an
  envelope of this type: the message goes to the engine of the COMPLETE A-Casts, and what
  the engine delivers goes to \<^verbatim>\<open>handleCompleteDelivery\<close>.
\<close>

fun complete_deliver_values ::
  "string \<Rightarrow> CompletePayload json list \<Rightarrow> 'r ABAService
     \<Rightarrow> 'r ABAService \<times> ABAMessage list \<times> int list" where
  "complete_deliver_values uuid [] s = (s, [], [])"
| "complete_deliver_values uuid (v # vs) s =
     (case handleCompleteDelivery uuid v s of
        (s1, bs1, rs1) \<Rightarrow>
          (case complete_deliver_values uuid vs s1 of
             (s2, bs2, rs2) \<Rightarrow> (s2, bs1 @ bs2, rs1 @ rs2)))"

definition dispatchComplete ::
  "string \<Rightarrow> ABAMessage \<Rightarrow> 'r ABAService \<Rightarrow> 'r ABAService \<times> ABAMessage list \<times> int list" where
  "dispatchComplete uuid msg s =
     (case abm_CompleteMsg msg of
        None \<Rightarrow> (s, [], [])
      | Some am \<Rightarrow>
          (case Acast_OnMessage am (acastComplete s) of
             (a', abcs, vals) \<Rightarrow>
               (case complete_deliver_values uuid vals (s\<lparr>acastComplete := a'\<rparr>) of
                  (s', bs, rs) \<Rightarrow> (s', map complete_wrap abcs @ bs, rs))))"

subsection \<open>Latched A-Cast instances\<close>

text \<open>The engine holds an instance for the uuid, and the instance has delivered.\<close>

definition acast_latched :: "string \<Rightarrow> 'v AcastService \<Rightarrow> bool" where
  "acast_latched uuid a = (case as_instances a uuid of None \<Rightarrow> False | Some inst \<Rightarrow> delivered inst)"


section \<open>A-Cast: delivery is latched\<close>


lemma Acast_inst_delivered_noop:
  "delivered inst \<Longrightarrow> Acast_instOnMessage me n t msg inst = (inst, [], [])"
  by (simp add: Acast_instOnMessage_def)

lemma Acast_inst_results_le1:
  "Acast_instOnMessage me n t msg inst = (inst', bs, rs) \<Longrightarrow> length rs \<le> 1"
  by (auto simp: Acast_instOnMessage_def Let_def split: if_splits MessageType.splits prod.splits)

lemma Acast_inst_result_sets_delivered:
  "Acast_instOnMessage me n t msg inst = (inst', bs, rs) \<Longrightarrow> rs \<noteq> [] \<Longrightarrow> delivered inst'"
  by (auto simp: Acast_instOnMessage_def Let_def split: if_splits MessageType.splits prod.splits)

lemma Acast_inst_delivered_mono:
  "Acast_instOnMessage me n t msg inst = (inst', bs, rs) \<Longrightarrow> delivered inst \<Longrightarrow> delivered inst'"
  by (simp add: Acast_instOnMessage_def)

lemma Acast_OnMessage_delivered_noop:
  assumes "as_instances a (am_UUID msg) = Some inst" "delivered inst"
  shows "Acast_OnMessage msg a = (a, [], [])"
  using assms
  by (simp add: Acast_OnMessage_def Acast_getInstance_def Acast_inst_delivered_noop map_upd_triv)

lemma Acast_OnMessage_other_uuid:
  "Acast_OnMessage msg a = (a', bs, rs) \<Longrightarrow> am_UUID msg \<noteq> uuid \<Longrightarrow>
   as_instances a' uuid = as_instances a uuid"
  by (auto simp: Acast_OnMessage_def split: prod.splits)

lemma Acast_OnMessage_delivered_after:
  "Acast_OnMessage msg a = (a', bs, rs) \<Longrightarrow> rs \<noteq> [] \<Longrightarrow>
   delivered (Acast_getInstance a' (am_UUID msg))"
  by (auto simp: Acast_OnMessage_def Acast_getInstance_def split: prod.splits dest: Acast_inst_result_sets_delivered)

lemma Acast_OnMessage_results_le1:
  "Acast_OnMessage msg a = (a', bs, rs) \<Longrightarrow> length rs \<le> 1"
  by (auto simp: Acast_OnMessage_def split: prod.splits dest: Acast_inst_results_le1)

lemma Acast_OnMessage_delivered_mono:
  "Acast_OnMessage msg a = (a', bs, rs) \<Longrightarrow> delivered (Acast_getInstance a uuid) \<Longrightarrow>
   delivered (Acast_getInstance a' uuid) \<and> (am_UUID msg = uuid \<longrightarrow> rs = [])"
proof (cases "am_UUID msg = uuid")
  case True
  assume s: "Acast_OnMessage msg a = (a', bs, rs)" and d: "delivered (Acast_getInstance a uuid)"
  from d True have "Acast_instOnMessage (as_id a) (as_n a) (as_t a) msg (Acast_getInstance a (am_UUID msg))
      = (Acast_getInstance a uuid, [], [])"
    by (simp add: Acast_inst_delivered_noop)
  with s d True show ?thesis
    by (auto simp: Acast_OnMessage_def Acast_getInstance_def)
next
  case False
  assume s: "Acast_OnMessage msg a = (a', bs, rs)" and d: "delivered (Acast_getInstance a uuid)"
  from Acast_OnMessage_other_uuid[OF s False] d False show ?thesis
    by (simp add: Acast_getInstance_def)
qed

lemma Acast_OnMessages_delivered_none:
  "delivered (Acast_getInstance a uuid) \<Longrightarrow>
   delivers_of uuid (snd (snd (Acast_OnMessages msgs a))) = []"
proof (induction msgs arbitrary: a)
  case Nil
  then show ?case by (simp add: delivers_of_def)
next
  case (Cons msg msgs)
  obtain a1 bs1 rs1 where s: "Acast_OnMessage msg a = (a1, bs1, rs1)" by (cases "Acast_OnMessage msg a") auto
  from Acast_OnMessage_delivered_mono[OF s Cons.prems]
  have d: "delivered (Acast_getInstance a1 uuid)" and r: "am_UUID msg = uuid \<longrightarrow> rs1 = []" by auto
  from Cons.IH[OF d] r s show ?case
    by (auto simp: delivers_of_def split: prod.splits)
qed

lemma Acast_OnMessages_le1:
  "length (delivers_of uuid (snd (snd (Acast_OnMessages msgs a)))) \<le> 1"
proof (induction msgs arbitrary: a)
  case Nil
  then show ?case by (simp add: delivers_of_def)
next
  case (Cons msg msgs)
  obtain a1 bs1 rs1 where s: "Acast_OnMessage msg a = (a1, bs1, rs1)" by (cases "Acast_OnMessage msg a") auto
  obtain a2 bs2 rs2 where s2: "Acast_OnMessages msgs a1 = (a2, bs2, rs2)" by (cases "Acast_OnMessages msgs a1") auto
  show ?case
  proof (cases "am_UUID msg = uuid \<and> rs1 \<noteq> []")
    case True
    with Acast_OnMessage_delivered_after[OF s] have "delivered (Acast_getInstance a1 uuid)" by auto
    from Acast_OnMessages_delivered_none[OF this, of msgs] s2 have "delivers_of uuid rs2 = []" by simp
    moreover have "length (filter ((\<lambda>r. fst r = uuid) \<circ> Pair (am_UUID msg)) rs1) \<le> 1"
      using order_trans[OF length_filter_le Acast_OnMessage_results_le1[OF s]] .
    ultimately show ?thesis using s s2
      by (simp add: delivers_of_def filter_map)
  next
    case False
    then have "delivers_of uuid (map (\<lambda>v. (am_UUID msg, v)) rs1) = []"
      by (auto simp: delivers_of_def filter_empty_conv)
    with Cons.IH[of a1] s s2 show ?thesis
      by (auto simp: delivers_of_def)
  qed
qed


text \<open>
  Claim C3. For every uuid and every sequence of MSG/ECHO/READY messages handled by a node,
  starting from any service state, at most one Deliver is emitted for that uuid; and once
  the instance of a uuid has its \<^verbatim>\<open>delivered\<close> flag set, handling any further message for
  that uuid leaves the whole service state unchanged and emits no broadcast and no result.
\<close>

theorem C3_acast_single_deliver:
  "length (delivers_of uuid (snd (snd (Acast_OnMessages msgs a)))) \<le> 1 \<and>
   (\<forall>inst msg. as_instances a uuid = Some inst \<and> delivered inst \<and> am_UUID msg = uuid
       \<longrightarrow> Acast_OnMessage msg a = (a, [], []))"
  using Acast_OnMessages_le1 [of uuid msgs a] Acast_OnMessage_delivered_noop [of a]
  by blast

theorem C3_acast_single_deliver_witness:
  "as_instances acast_delivered_state ''u''
      = Some (NewACastInstance\<lparr>sentReady := True, delivered := True\<rparr>) \<and>
   delivered (NewACastInstance\<lparr>sentReady := True, delivered := True\<rparr> :: string ACastInstance) \<and>
   am_UUID (acast_ready_from 4) = ''u'' \<and>
   Acast_OnMessage (acast_ready_from 4) acast_delivered_state = (acast_delivered_state, [], []) \<and>
   length (delivers_of ''u'' (snd (snd (Acast_OnMessages
      [acast_ready_from 1, acast_ready_from 2, acast_ready_from 3, acast_ready_from 4]
      acast_delivered_state)))) \<le> 1"
proof -
  let ?i = "NewACastInstance\<lparr>sentReady := True, delivered := True\<rparr> :: string ACastInstance"
  let ?ms = "[acast_ready_from 1, acast_ready_from 2, acast_ready_from 3, acast_ready_from 4]"
  have h1: "as_instances acast_delivered_state ''u'' = Some ?i"
    by (simp add: acast_delivered_state_def)
  have h2: "delivered ?i" by simp
  have h3: "am_UUID (acast_ready_from 4) = ''u''" by (simp add: acast_ready_from_def)
  note c3 = C3_acast_single_deliver [of "''u''" ?ms acast_delivered_state]
  from c3 h1 h2 h3
  have "Acast_OnMessage (acast_ready_from 4) acast_delivered_state = (acast_delivered_state, [], [])"
    by blast
  with c3 h1 h2 h3 show ?thesis by blast
qed

lemma Acast_run_delivers_once:
  "Acast_OnMessages
      [acast_ready_from 1, acast_ready_from 2, acast_ready_from 3, acast_ready_from 4]
      (NewAcastService 1 4 1)
   = (acast_delivered_state,
      [\<lparr>am_Type = READY, am_UUID = ''u'', am_Val = ''v'', am_From = 1\<rparr>],
      [(''u'', ''v'')])"
  by (simp add: acast_delivered_state_def acast_ready_from_def NewACastInstance_def
      NewAcastService_def Acast_OnMessage_def Acast_instOnMessage_def Acast_getInstance_def
      addToSet_def Let_def)


section \<open>IVSS: uuids, candidate set, reconstruction result, replay\<close>

lemma show_nat_small: "n < 10 \<Longrightarrow> show_nat n = [''0123456789'' ! n]"
  by (subst show_nat.simps) simp

lemma show_int_0: "show_int 0 = ''0''"
  by (simp add: show_int_def show_nat_small)

text \<open>
  Claim C7, as stated, fails for EQUAL payloads: the uuid that \<^verbatim>\<open>startACast\<close> gives the
  A-Cast of EQUAL(1, 2) in instance \<open>X\<close> is \<open>X-0-[1 2]\<close>, not \<open>X-EQUAL-1-2\<close>.
\<close>

theorem C7_equal_uuid_counterexample:
  "startACast_uuid 1 (equal_payload 1 (NewIVSSInstance ''X'' 1) 2) = ''X-0-[1 2]'' \<and>
   spec_uuid (equal_payload 1 (NewIVSSInstance ''X'' 1) 2) = ''X-EQUAL-1-2'' \<and>
   startACast_uuid 1 (equal_payload 1 (NewIVSSInstance ''X'' 1) 2)
     \<noteq> spec_uuid (equal_payload 1 (NewIVSSInstance ''X'' 1) 2)"
  by (simp add: startACast_uuid_def spec_uuid_def equal_payload_def NewIVSSInstance_def
      show_pair_def show_int_def show_nat_small)

text \<open>
  Claim C7, amended. Every A-Cast started by the IVSS layer carries this uuid: for an
  EQUAL(i, j) payload the instance id followed by \<open>-0-[i j]\<close> (the numeric payload type
  and Go's rendering of the pair); for MSET, REVEAL and READY payloads the structure the
  specification requires, \<open>{InstanceID}-MSET\<close>, \<open>{InstanceID}-REVEAL-{RevealSender}\<close> and
  \<open>{InstanceID}-READY-{RevealSender}\<close>, where RevealSender is the node's own id. The
  payloads are those built at the four places that call \<^verbatim>\<open>startACast\<close>.
\<close>

theorem C7_ivss_uuid_structure:
  "am_UUID (the (im_ACastMsg (startACast me (equal_payload me inst frm))))
     = ii_id inst @ ''-0-['' @ show_int me @ '' '' @ show_int frm @ '']'' \<and>
   am_UUID (the (im_ACastMsg (startACast me (mset_payload inst m))))
     = spec_uuid (mset_payload inst m) \<and>
   am_UUID (the (im_ACastMsg (startACast me (reveal_payload me inst))))
     = spec_uuid (reveal_payload me inst) \<and>
   am_UUID (the (im_ACastMsg (startACast me (ready_payload me inst))))
     = spec_uuid (ready_payload me inst) \<and>
   spec_uuid (mset_payload inst m) = ii_id inst @ ''-MSET'' \<and>
   spec_uuid (reveal_payload me inst) = ii_id inst @ ''-REVEAL-'' @ show_int me \<and>
   spec_uuid (ready_payload me inst) = ii_id inst @ ''-READY-'' @ show_int me"
  by (simp add: startACast_def IVSS_wrap_def startACast_uuid_def spec_uuid_def equal_payload_def
      mset_payload_def reveal_payload_def ready_payload_def show_pair_def show_int_0)

lemma incremental_fold_is_spec_greedy:
  "foldl (\<lambda>m candidate. if canAdd_candidate cp inst m candidate then m @ [candidate] else m) M ks
     = spec_greedy (completedEquals inst) (IsFaultyPair cp) M ks"
  by (induction ks arbitrary: M) (simp_all add: canAdd_candidate_def list_all_iff)

lemma incremental_mSet_is_spec:
  "incremental_mSet n cp inst = spec_candidate_set n cp inst"
  by (simp add: incremental_mSet_def spec_candidate_set_def incremental_fold_is_spec_greedy)

lemma checkCandidateSet_incremental_is_spec:
  "checkCandidateSet Incremental me n t cp inst =
     Inr (if me = ii_dealer inst \<and> \<not> sharingCompleted inst
               \<and> n - t \<le> int (length (spec_candidate_set n cp inst))
          then [startACast me (mset_payload inst (spec_candidate_set n cp inst))]
          else [])"
  by (simp add: checkCandidateSet_incremental_def incremental_mSet_is_spec Let_def)

text \<open>
  Claim C2. The copy of \<^verbatim>\<open>checkCandidateSet\<close> that calls \<^verbatim>\<open>findClique\<close> does not A-Cast
  the set of the greedy single pass. With every EQUAL among four nodes delivered the pass
  builds \<open>{1,2,3,4}\<close> and the dealer A-Casts \<open>{1,2,3}\<close>; with only the EQUALs among
  nodes 2, 3 and 4 delivered the pass builds \<open>{1}\<close>, below \<open>n - t = 3\<close>, and the
  dealer A-Casts \<open>{2,3,4}\<close>. (The incremental copy does A-Cast the greedy set:
  \<open>checkCandidateSet_incremental_is_spec\<close>.)
\<close>

theorem C2_backtracking_candidate_set:
  "checkCandidateSet Backtracking 1 4 1 NewCertificationProtocol all_equals_instance
     = Inr [startACast 1 (mset_payload all_equals_instance [1, 2, 3])] \<and>
   spec_candidate_set 4 NewCertificationProtocol all_equals_instance = [1, 2, 3, 4] \<and>
   checkCandidateSet Backtracking 1 4 1 NewCertificationProtocol late_dealer_instance
     = Inr [startACast 1 (mset_payload late_dealer_instance [2, 3, 4])] \<and>
   spec_candidate_set 4 NewCertificationProtocol late_dealer_instance = [1]"
  by code_simp

lemma ready_before_secret_backtracking:
  "IVSS_onPayload Backtracking 4 4 1 reveal_from_2 NewCertificationProtocol ready_before_secret
     = Inr (ready_before_secret\<lparr>reconstructedPolys := [(1, Some slice1), (2, Some slice2)],
                                 secret := Some 42\<rparr>,
            NewCertificationProtocol,
            [startACast 4 (ready_payload 4 ready_before_secret)],
            [])"
  by code_simp

lemma ready_before_secret_incremental:
  "IVSS_onPayload Incremental 4 4 1 reveal_from_2 NewCertificationProtocol ready_before_secret
     = Inr (ready_before_secret\<lparr>reconstructedPolys := [(1, Some slice1), (2, Some slice2)],
                                 secret := Some 42\<rparr>,
            NewCertificationProtocol,
            [startACast 4 (ready_payload 4 ready_before_secret)],
            [])"
  by code_simp

lemma ready_before_secret_threshold:
  "int (card (readyToComplete ready_before_secret)) \<ge> 4 - 1 \<and> secret ready_before_secret = None"
  by code_simp

text \<open>
  Claim C8. A node that has already recorded READY from \<open>n - t = 3\<close> senders handles the
  REVEAL that lets it interpolate the secret (42). After this step the ready threshold
  is reached and the secret is set, but no Reconstructed result is emitted and
  \<^verbatim>\<open>reconstructed\<close> stays false: the step only A-Casts the node's own READY. This holds
  for both copies of \<^verbatim>\<open>checkInterpolationSet\<close>.
\<close>

theorem C8_ready_threshold_before_secret:
  "IVSS_onPayload variant 4 4 1 reveal_from_2 NewCertificationProtocol ready_before_secret
     = Inr (ready_before_secret\<lparr>reconstructedPolys := [(1, Some slice1), (2, Some slice2)],
                                 secret := Some 42\<rparr>,
            NewCertificationProtocol,
            [startACast 4 (ready_payload 4 ready_before_secret)],
            []) \<and>
   int (card (readyToComplete ready_before_secret)) \<ge> 4 - 1 \<and>
   secret ready_before_secret = None"
  using ready_before_secret_backtracking ready_before_secret_incremental ready_before_secret_threshold
  by (cases variant) simp_all

lemma addToSet_again:
  "addToSet m val frm = (m', c) \<Longrightarrow> addToSet m' val frm = (m', c)"
  by (auto simp: addToSet_def Let_def insert_absorb)

lemma Acast_inst_replay:
  "Acast_instOnMessage me n t msg inst = (inst', bs, rs) \<Longrightarrow>
   Acast_instOnMessage me n t msg inst' = (inst', [], [])"
proof (cases "delivered inst")
  case True
  assume "Acast_instOnMessage me n t msg inst = (inst', bs, rs)"
  with True show ?thesis by (simp add: Acast_instOnMessage_def)
next
  case False
  assume a: "Acast_instOnMessage me n t msg inst = (inst', bs, rs)"
  show ?thesis
  proof (cases "am_Type msg")
    case MSG
    with a False show ?thesis
      by (auto simp: Acast_instOnMessage_def split: if_splits)
  next
    case ECHO
    obtain m' c where ad: "addToSet (receivedEcho inst) (am_Val msg) (am_From msg) = (m', c)"
      by (cases "addToSet (receivedEcho inst) (am_Val msg) (am_From msg)") auto
    from addToSet_again[OF ad] ad a False ECHO show ?thesis
      by (auto simp: Acast_instOnMessage_def Let_def split: if_splits)
  next
    case READY
    obtain m' c where ad: "addToSet (receivedReady inst) (am_Val msg) (am_From msg) = (m', c)"
      by (cases "addToSet (receivedReady inst) (am_Val msg) (am_From msg)") auto
    from addToSet_again[OF ad] ad a False READY show ?thesis
      by (auto simp: Acast_instOnMessage_def Let_def split: if_splits)
  qed
qed

lemma Acast_OnMessage_replay:
  assumes "Acast_OnMessage msg a = (a1, bs, rs)"
  shows "Acast_OnMessage msg a1 = (a1, [], [])"
proof -
  obtain inst' where i: "Acast_instOnMessage (as_id a) (as_n a) (as_t a) msg (Acast_getInstance a (am_UUID msg)) = (inst', bs, rs)"
    and a1: "a1 = a\<lparr>as_instances := (as_instances a)(am_UUID msg \<mapsto> inst')\<rparr>"
    using assms by (auto simp: Acast_OnMessage_def split: prod.splits)
  from Acast_inst_replay[OF i] a1 show ?thesis
    by (simp add: Acast_OnMessage_def Acast_getInstance_def)
qed











lemma upto_1_4: "[1..4::int] = [1,2,3,4]"
  by (simp add: upto.simps)

lemma share_first_handling:
  "IVSS_OnMessage v share_to_2 node2_fresh = Inr (node2_after_share, points_of_2, [])"
  by (simp add: IVSS_OnMessage_def share_to_2_def node2_fresh_def node2_after_share_def
      points_of_2_def NewIVSSService_def IVSS_getInstance_def NewIVSSInstance_def
      IVSS_onDirect_def Let_def upto_1_4 point_message_def Evaluate_def slice2_def
      big_Mod_def Prime_def)







section \<open>Transport: what a broadcast reaches\<close>

lemma Broadcast_at:
  "Broadcast msg net i = (case net i of None \<Rightarrow> None | Some ch \<Rightarrow> Some (ch @ [msg]))"
  by (simp add: Broadcast_def)

lemma Broadcast_all_keeps:
  "net peer = Some ch \<Longrightarrow> \<exists>ch'. Broadcast_all bs net peer = Some (ch @ ch')  \<and> set ch' = set bs"
proof (induction bs arbitrary: net ch)
  case Nil
  then show ?case by simp
next
  case (Cons b bs)
  from Cons.prems have "Broadcast b net peer = Some (ch @ [b])" by (simp add: Broadcast_def)
  from Cons.IH[of "Broadcast b net" "ch @ [b]", OF this] obtain ch' where
    "Broadcast_all bs (Broadcast b net) peer = Some ((ch @ [b]) @ ch')" "set ch' = set bs" by blast
  then have "Broadcast_all (b # bs) net peer = Some (ch @ (b # ch')) \<and> set (b # ch') = set (b # bs)"
    by simp
  then show ?case by blast
qed

lemma Broadcast_all_reaches:
  assumes "net peer = Some ch" "b \<in> set bs"
  shows "\<exists>ch'. Broadcast_all bs net peer = Some ch' \<and> b \<in> set ch'"
proof -
  from Broadcast_all_keeps[of net peer ch bs, OF assms(1)] obtain ch' where
    "Broadcast_all bs net peer = Some (ch @ ch')" "set ch' = set bs" by blast
  with assms(2) show ?thesis by auto
qed

lemma StartSharing_shares:
  "StartSharing iid (Some poly) s = Inr (map (share_message (is_id s) iid poly) [1..is_n s])"
  by (simp add: StartSharing_def)

lemma share_handler_points:
  assumes "IVSS_onDirect me n msg inst = Inr (inst', bs)" "im_DirectType msg = Direct_Share"
    "im_Poly msg = Some q" "1 \<le> j" "j \<le> n"
  shows "point_message me (im_InstanceID msg) q j \<in> set bs"
  using assms
  by (auto simp: IVSS_onDirect_def Let_def split: sum.splits if_splits)

lemma direct_not_for_me:
  "im_Type msg = IVSS_Direct \<Longrightarrow> im_To msg \<noteq> is_id s \<Longrightarrow> IVSS_OnMessage v msg s = Inr (s, [], [])"
  by (simp add: IVSS_OnMessage_def)

text \<open>
  Claim C10. \<^verbatim>\<open>Network.Broadcast\<close> puts the message into the channel of every registered
  peer (the sender's own, if it is registered) and of no one else. \<^verbatim>\<open>StartSharing\<close> sends
  the slice of every node \<open>k\<close> through \<^verbatim>\<open>Broadcast\<close>, marked only by \<open>To = k\<close>, so
  the channel of every registered peer receives the slice of every other node; the same
  holds for the point messages a receiver sends on handling its share. A node handling a
  direct message whose \<open>To\<close> is not its own id returns without touching its state and
  without any output.
\<close>

theorem C10_broadcast_reaches_every_peer:
  "(net peer = Some ch \<longrightarrow> Broadcast msg net peer = Some (ch @ [msg])) \<and>
   (net peer = None \<longrightarrow> Broadcast msg net peer = None) \<and>
   StartSharing iid (Some poly) s = Inr (map (share_message (is_id s) iid poly) [1..is_n s]) \<and>
   (net peer = Some ch \<and> 1 \<le> k \<and> k \<le> is_n s \<longrightarrow>
      (\<exists>ch'. Broadcast_all (map (share_message (is_id s) iid poly) [1..is_n s]) net peer = Some ch'
         \<and> share_message (is_id s) iid poly k \<in> set ch') \<and>
      im_To (share_message (is_id s) iid poly k) = k \<and>
      im_Poly (share_message (is_id s) iid poly k) = Some (GetUnivariatePolynomial Prime poly k)) \<and>
   (IVSS_OnMessage v m r = Inr (r', bs, rs) \<and> im_Type m = IVSS_Direct \<and> im_DirectType m = Direct_Share
      \<and> im_To m = is_id r \<and> im_Poly m = Some q \<and> net peer = Some ch \<and> 1 \<le> j \<and> j \<le> is_n r \<longrightarrow>
      (\<exists>ch'. Broadcast_all bs net peer = Some ch'
         \<and> point_message (is_id r) (im_InstanceID m) q j \<in> set ch') \<and>
      im_To (point_message (is_id r) (im_InstanceID m) q j) = j \<and>
      im_Point (point_message (is_id r) (im_InstanceID m) q j) = Some (Evaluate Prime q j)) \<and>
   (im_Type m = IVSS_Direct \<and> im_To m \<noteq> is_id r \<longrightarrow> IVSS_OnMessage v m r = Inr (r, [], []))"
proof (intro conjI impI)
  show "StartSharing iid (Some poly) s = Inr (map (share_message (is_id s) iid poly) [1..is_n s])"
    by (rule StartSharing_shares)
next
  assume h: "net peer = Some ch \<and> 1 \<le> k \<and> k \<le> is_n s"
  then have "share_message (is_id s) iid poly k \<in> set (map (share_message (is_id s) iid poly) [1..is_n s])"
    by simp
  moreover from h have "net peer = Some ch" by simp
  ultimately
  show "\<exists>ch'. Broadcast_all (map (share_message (is_id s) iid poly) [1..is_n s]) net peer = Some ch'
         \<and> share_message (is_id s) iid poly k \<in> set ch'"
    by (rule Broadcast_all_reaches[rotated])
next
  assume h: "IVSS_OnMessage v m r = Inr (r', bs, rs) \<and> im_Type m = IVSS_Direct \<and> im_DirectType m = Direct_Share
      \<and> im_To m = is_id r \<and> im_Poly m = Some q \<and> net peer = Some ch \<and> 1 \<le> j \<and> j \<le> is_n r"
  then obtain inst' where d:
    "IVSS_onDirect (is_id r) (is_n r) m (IVSS_getInstance r (im_InstanceID m) (im_From m)) = Inr (inst', bs)"
    by (auto simp: IVSS_OnMessage_def split: sum.splits prod.splits)
  from h have "im_DirectType m = Direct_Share" "im_Poly m = Some q" "1 \<le> j" "j \<le> is_n r" by simp_all
  from share_handler_points[OF d this]
  have "point_message (is_id r) (im_InstanceID m) q j \<in> set bs" .
  moreover from h have "net peer = Some ch" by simp
  ultimately
  show "\<exists>ch'. Broadcast_all bs net peer = Some ch'
         \<and> point_message (is_id r) (im_InstanceID m) q j \<in> set ch'"
    by (rule Broadcast_all_reaches[rotated])
qed (simp_all add: Broadcast_def share_message_def point_message_def IVSS_OnMessage_def)


lemma dealer_share_to_2: "share_message 1 ''X'' dealer_poly 2 = share_to_2"
  by (simp add: share_message_def share_to_2_def dealer_poly_def slice2_def
      GetUnivariatePolynomial_def big_Mod_def Prime_def)

theorem C10_broadcast_witness:
  "net4 3 = Some [] \<and>
   Broadcast share_to_2 net4 3 = Some [share_to_2] \<and>
   (\<exists>ch'. Broadcast_all (map (share_message (is_id node1_fresh) ''X'' dealer_poly) [1..is_n node1_fresh])
             net4 3 = Some ch'
          \<and> share_message (is_id node1_fresh) ''X'' dealer_poly 2 \<in> set ch') \<and>
   share_message (is_id node1_fresh) ''X'' dealer_poly 2 = share_to_2 \<and>
   (\<exists>ch'. Broadcast_all points_of_2 net4 3 = Some ch'
          \<and> point_message (is_id node2_fresh) (im_InstanceID share_to_2) slice2 1 \<in> set ch') \<and>
   im_To (point_message (is_id node2_fresh) (im_InstanceID share_to_2) slice2 1) = 1 \<and>
   im_Type share_to_2 = IVSS_Direct \<and> im_To share_to_2 \<noteq> is_id node3_fresh \<and>
   IVSS_OnMessage Incremental share_to_2 node3_fresh = Inr (node3_fresh, [], [])"
proof -
  have n: "net4 3 = Some []" by (simp add: net4_def Register_def)
  have i1: "is_id node1_fresh = 1" "is_n node1_fresh = 4"
    by (simp_all add: node1_fresh_def NewIVSSService_def)
  have k: "(1::int) \<le> 2 \<and> 2 \<le> is_n node1_fresh" by (simp add: i1)
  have f: "IVSS_OnMessage Incremental share_to_2 node2_fresh = Inr (node2_after_share, points_of_2, [])"
    by (rule share_first_handling)
  have t: "im_Type share_to_2 = IVSS_Direct \<and> im_DirectType share_to_2 = Direct_Share \<and>
           im_To share_to_2 = is_id node2_fresh \<and> im_Poly share_to_2 = Some slice2 \<and>
           (1::int) \<le> 1 \<and> 1 \<le> is_n node2_fresh"
    by (simp add: share_to_2_def node2_fresh_def NewIVSSService_def)
  have o: "im_To share_to_2 \<noteq> is_id node3_fresh"
    by (simp add: share_to_2_def node3_fresh_def NewIVSSService_def)
  note a = C10_broadcast_reaches_every_peer
    [where net = net4 and peer = 3 and ch = "[]" and msg = share_to_2 and iid = "''X''"
       and poly = dealer_poly and s = node1_fresh and k = 2 and v = Incremental
       and m = share_to_2 and r = node2_fresh and r' = node2_after_share and bs = points_of_2
       and rs = "[]" and q = slice2 and j = 1]
  note b = C10_broadcast_reaches_every_peer
    [where net = net4 and peer = 3 and ch = "[]" and msg = share_to_2 and iid = "''X''"
       and poly = dealer_poly and s = node1_fresh and k = 2 and v = Incremental
       and m = share_to_2 and r = node3_fresh and r' = node2_after_share and bs = points_of_2
       and rs = "[]" and q = slice2 and j = 1]
  from a n have 1: "Broadcast share_to_2 net4 3 = Some [share_to_2]" by simp
  from a n k have 2: "\<exists>ch'. Broadcast_all (map (share_message (is_id node1_fresh) ''X'' dealer_poly) [1..is_n node1_fresh])
             net4 3 = Some ch'
          \<and> share_message (is_id node1_fresh) ''X'' dealer_poly 2 \<in> set ch'" by blast
  from a n f t have 3: "(\<exists>ch'. Broadcast_all points_of_2 net4 3 = Some ch'
          \<and> point_message (is_id node2_fresh) (im_InstanceID share_to_2) slice2 1 \<in> set ch') \<and>
   im_To (point_message (is_id node2_fresh) (im_InstanceID share_to_2) slice2 1) = 1" by blast
  from b t o have 4: "IVSS_OnMessage Incremental share_to_2 node3_fresh = Inr (node3_fresh, [], [])"
    by blast
  from n 1 2 3 4 t o dealer_share_to_2 i1 show ?thesis by simp
qed


section \<open>Vote: how the sets B and C are formed\<close>

lemma late_input_run_result:
  "fst (Vote_deliveries 1 4 1 late_input_run (newVoteRoundState 1)) = late_input_state"
  by code_simp

text \<open>
  Claim C1, as stated, fails when an INPUT arrives after \<open>A\<close> was fixed: with
  \<open>A = {1,2,3}\<close> and a later INPUT from 4, the node forms \<open>B = {1,2,3}\<close> although only
  the VOTE1 set of sender 1 is a subset of \<open>A\<close> (those of 2 and 3 contain 4).
\<close>

theorem C1_late_input_counterexample:
  "fst (Vote_deliveries 1 4 1 late_input_run (newVoteRoundState 1)) = late_input_state \<and>
   vr_myA late_input_state = [1, 2, 3] \<and>
   vr_myB late_input_state = [1, 2, 3] \<and>
   spec_valid_vote1 late_input_state = {1} \<and>
   set (vr_myB late_input_state) \<noteq> spec_valid_vote1 late_input_state"
proof -
  have "spec_valid_vote1 late_input_state = {1}"
    by (simp add: spec_valid_vote1_def late_input_state_def)
  then show ?thesis
    using late_input_run_result by (auto simp: late_input_state_def)
qed

lemma isSubset_iff: "isSubset sub super \<longleftrightarrow> set sub \<subseteq> set super"
  by (auto simp: isSubset_def list_all_iff)

lemma validVote1s_set:
  "set (validVote1s st)
     = fst ` {e \<in> set (receivedVote1 st). set (fst (snd e)) \<subseteq> fst ` set (receivedInputs st)}"
  by (simp add: validVote1s_def isSubset_iff split_beta)

lemma validRevotes_set:
  "set (validRevotes st)
     = fst ` {e \<in> set (receivedRevote st). set (fst (snd e)) \<subseteq> set (validVote1s st)}"
  by (simp add: validRevotes_def isSubset_iff split_beta)

lemma phase1_tables:
  "vote_phase1 me n t st = (st1, ps) \<Longrightarrow>
   receivedInputs st1 = receivedInputs st \<and> receivedVote1 st1 = receivedVote1 st \<and>
   receivedRevote st1 = receivedRevote st \<and> sentRevote st1 = sentRevote st \<and>
   vr_myB st1 = vr_myB st \<and> vr_myC st1 = vr_myC st \<and>
   (sentVote1 st1 \<longleftrightarrow> sentVote1 st \<or> int (length (receivedInputs st)) \<ge> n - t)"
  by (auto simp: vote_phase1_def Let_def split: if_splits)

lemma phase2_tables:
  "vote_phase2 me n t st = (st2, ps) \<Longrightarrow>
   receivedInputs st2 = receivedInputs st \<and> receivedVote1 st2 = receivedVote1 st \<and>
   receivedRevote st2 = receivedRevote st \<and> vr_myC st2 = vr_myC st \<and>
   (sentRevote st2 \<longleftrightarrow> sentRevote st \<or> (sentVote1 st \<and> int (length (validVote1s st)) \<ge> n - t)) \<and>
   vr_myB st2 = (if sentVote1 st \<and> \<not> sentRevote st \<and> int (length (validVote1s st)) \<ge> n - t
                 then sort (validVote1s st) else vr_myB st)"
  by (auto simp: vote_phase2_def Let_def split: if_splits)

lemma phase3_sets:
  "vote_phase3 n t st = (st3, rs) \<Longrightarrow>
   vr_myB st3 = vr_myB st \<and>
   vr_myC st3 = (if sentRevote st \<and> int (length (validRevotes st)) \<ge> n - t
                 then sort (validRevotes st) else vr_myC st)"
  by (auto simp: vote_phase3_def vote_finish_def Let_def split: if_splits)

lemma valid_cong:
  "receivedInputs st' = receivedInputs st \<Longrightarrow> receivedVote1 st' = receivedVote1 st \<Longrightarrow>
   validVote1s st' = validVote1s st"
  by (simp add: validVote1s_def)

lemma validR_cong:
  "receivedInputs st' = receivedInputs st \<Longrightarrow> receivedVote1 st' = receivedVote1 st \<Longrightarrow>
   receivedRevote st' = receivedRevote st \<Longrightarrow> validRevotes st' = validRevotes st"
  by (simp add: validRevotes_def validVote1s_def)

lemma checkProgress_sets:
  assumes "Vote_checkProgress me n t st = (st', ps, rs)"
  shows "vr_myB st' = (if forms_B n t st then sort (validVote1s st) else vr_myB st)"
    and "vr_myC st' = (if forms_C n t st then sort (validRevotes st) else vr_myC st)"
proof -
  obtain st1 ps1 where p1: "vote_phase1 me n t st = (st1, ps1)" by (cases "vote_phase1 me n t st") auto
  obtain st2 ps2 where p2: "vote_phase2 me n t st1 = (st2, ps2)" by (cases "vote_phase2 me n t st1") auto
  obtain st3 rs3 where p3: "vote_phase3 n t st2 = (st3, rs3)" by (cases "vote_phase3 n t st2") auto
  from assms p1 p2 p3 have e: "st' = st3" by (simp add: Vote_checkProgress_def)
  note t1 = phase1_tables[OF p1] and t2 = phase2_tables[OF p2] and t3 = phase3_sets[OF p3]
  have v1: "validVote1s st1 = validVote1s st" by (rule valid_cong) (simp_all add: t1)
  have r2: "validRevotes st2 = validRevotes st" by (rule validR_cong) (simp_all add: t1 t2)
  have s1: "sentVote1 st1 \<longleftrightarrow> sentVote1 st \<or> int (length (receivedInputs st)) \<ge> n - t"
    and s1r: "sentRevote st1 = sentRevote st" and b1: "vr_myB st1 = vr_myB st"
    and c1: "vr_myC st1 = vr_myC st"
    using t1 by blast+
  have b2: "vr_myB st2 = (if sentVote1 st1 \<and> \<not> sentRevote st1 \<and> int (length (validVote1s st1)) \<ge> n - t
                 then sort (validVote1s st1) else vr_myB st1)"
    and s2: "sentRevote st2 \<longleftrightarrow> sentRevote st1 \<or> (sentVote1 st1 \<and> int (length (validVote1s st1)) \<ge> n - t)"
    and c2: "vr_myC st2 = vr_myC st1"
    using t2 by blast+
  have b3: "vr_myB st3 = vr_myB st2"
    and c3: "vr_myC st3 = (if sentRevote st2 \<and> int (length (validRevotes st2)) \<ge> n - t
                 then sort (validRevotes st2) else vr_myC st2)"
    using t3 by blast+
  have fb: "forms_B n t st \<longleftrightarrow> sentVote1 st1 \<and> \<not> sentRevote st1 \<and> int (length (validVote1s st1)) \<ge> n - t"
    by (simp add: forms_B_def s1 s1r v1)
  show "vr_myB st' = (if forms_B n t st then sort (validVote1s st) else vr_myB st)"
    by (simp add: e b3 b2 fb v1 b1)
  have fc: "forms_C n t st \<longleftrightarrow> sentRevote st2 \<and> int (length (validRevotes st2)) \<ge> n - t"
    using s1r unfolding forms_C_def fb s2 r2 by blast
  show "vr_myC st' = (if forms_C n t st then sort (validRevotes st) else vr_myC st)"
    by (simp add: e c3 fc r2 c2 c1)
qed


lemma update_keys: "fst ` set (AList.update k v al) = insert k (fst ` set al)"
  by (induction al) auto

lemma checkProgress_myA:
  assumes "Vote_checkProgress me n t st = (st', ps, rs)"
  shows "receivedInputs st' = receivedInputs st \<and>
         (vr_myA st' = vr_myA st \<or> vr_myA st' = sort (map fst (receivedInputs st)))"
proof -
  obtain st1 ps1 where p1: "vote_phase1 me n t st = (st1, ps1)" by (cases "vote_phase1 me n t st") auto
  obtain st2 ps2 where p2: "vote_phase2 me n t st1 = (st2, ps2)" by (cases "vote_phase2 me n t st1") auto
  obtain st3 rs3 where p3: "vote_phase3 n t st2 = (st3, rs3)" by (cases "vote_phase3 n t st2") auto
  from assms p1 p2 p3 have e: "st' = st3" by (simp add: Vote_checkProgress_def)
  from p1 have 1: "receivedInputs st1 = receivedInputs st \<and>
         (vr_myA st1 = vr_myA st \<or> vr_myA st1 = sort (map fst (receivedInputs st)))"
    by (auto simp: vote_phase1_def Let_def split: if_splits)
  from p2 have 2: "receivedInputs st2 = receivedInputs st1 \<and> vr_myA st2 = vr_myA st1"
    by (auto simp: vote_phase2_def Let_def split: if_splits)
  from p3 have 3: "receivedInputs st3 = receivedInputs st2 \<and> vr_myA st3 = vr_myA st2"
    by (auto simp: vote_phase3_def vote_finish_def Let_def split: if_splits)
  from e 1 2 3 show ?thesis by metis
qed

lemma delivered_myA_within_inputs:
  assumes "Vote_processDeliveredPayload me n t p st = (st', ps, rs)"
    and "set (vr_myA st) \<subseteq> fst ` set (receivedInputs st)"
  shows "set (vr_myA st') \<subseteq> fst ` set (receivedInputs st')"
proof (cases "vr_finished st")
  case True
  with assms show ?thesis by (simp add: Vote_processDeliveredPayload_def)
next
  case False
  define st0 where "st0 = (case vp_Type p of
                Vote_Input \<Rightarrow> st\<lparr>receivedInputs := AList.update (vp_Sender p) (vp_Bit p) (receivedInputs st)\<rparr>
              | Vote_Vote1 \<Rightarrow> st\<lparr>receivedVote1 :=
                                  AList.update (vp_Sender p) (vp_Set p, vp_Bit p) (receivedVote1 st)\<rparr>
              | Vote_Revote \<Rightarrow> st\<lparr>receivedRevote :=
                                   AList.update (vp_Sender p) (vp_Set p, vp_Bit p) (receivedRevote st)\<rparr>)"
  have 0: "vr_myA st0 = vr_myA st \<and> fst ` set (receivedInputs st) \<subseteq> fst ` set (receivedInputs st0)"
    by (cases "vp_Type p") (auto simp: st0_def update_keys)
  from assms(1) False have c: "Vote_checkProgress me n t st0 = (st', ps, rs)"
    by (simp add: Vote_processDeliveredPayload_def st0_def)
  from checkProgress_myA[OF c] have r: "receivedInputs st' = receivedInputs st0"
    and m: "vr_myA st' = vr_myA st0 \<or> vr_myA st' = sort (map fst (receivedInputs st0))" by blast+
  from m show ?thesis
  proof
    assume "vr_myA st' = vr_myA st0"
    with 0 r assms(2) show ?thesis by (metis subset_trans)
  next
    assume "vr_myA st' = sort (map fst (receivedInputs st0))"
    with r show ?thesis by simp
  qed
qed

lemma deliveries_myA_within_inputs:
  "Vote_deliveries me n t payloads st = (st', ps, rs) \<Longrightarrow>
   set (vr_myA st) \<subseteq> fst ` set (receivedInputs st) \<Longrightarrow>
   set (vr_myA st') \<subseteq> fst ` set (receivedInputs st')"
proof (induction payloads arbitrary: st st' ps rs)
  case Nil
  then show ?case by simp
next
  case (Cons p payloads)
  obtain st1 as1 rs1 where a: "Vote_processDeliveredPayload me n t p st = (st1, as1, rs1)"
    by (cases "Vote_processDeliveredPayload me n t p st") auto
  obtain st2 as2 rs2 where b: "Vote_deliveries me n t payloads st1 = (st2, as2, rs2)"
    by (cases "Vote_deliveries me n t payloads st1") auto
  from Cons.prems(1) a b have e: "st' = st2" by simp
  from delivered_myA_within_inputs[OF a Cons.prems(2)]
  have "set (vr_myA st1) \<subseteq> fst ` set (receivedInputs st1)" .
  from Cons.IH[OF b this] e show ?case by simp
qed

text \<open>
  Claim C1, amended. When \<^verbatim>\<open>checkProgress\<close> forms \<open>B\<close> it takes exactly the senders \<open>j\<close>
  whose delivered VOTE1 set \<open>A\<^sub>j\<close> is a subset of the senders of all INPUT payloads
  delivered so far; this set contains the \<open>A\<close> fixed in phase 1 and may have grown since.
  \<open>B\<close> is fixed (sorted) by the first check at which VOTE1 has been sent, REVOTE has not,
  and this valid set has at least \<open>n - t\<close> members. Likewise \<open>C\<close> is formed from the senders
  whose REVOTE set \<open>B\<^sub>j\<close> is a subset of the valid VOTE1 senders at the time of the check,
  once REVOTE has been sent and there are at least \<open>n - t\<close> of them.
\<close>

theorem C1_vote_sets_follow_current_inputs:
  "(Vote_checkProgress me n t st = (st', ps, rs) \<longrightarrow>
      vr_myB st' = (if forms_B n t st then sort (validVote1s st) else vr_myB st) \<and>
      vr_myC st' = (if forms_C n t st then sort (validRevotes st) else vr_myC st)) \<and>
   set (validVote1s st)
     = fst ` {e \<in> set (receivedVote1 st). set (fst (snd e)) \<subseteq> fst ` set (receivedInputs st)} \<and>
   set (validRevotes st)
     = fst ` {e \<in> set (receivedRevote st). set (fst (snd e)) \<subseteq> set (validVote1s st)} \<and>
   (Vote_deliveries me n t payloads (newVoteRoundState r) = (st', ps, rs) \<longrightarrow>
      set (vr_myA st') \<subseteq> fst ` set (receivedInputs st'))"
proof (intro conjI impI)
  assume a: "Vote_checkProgress me n t st = (st', ps, rs)"
  show "vr_myB st' = (if forms_B n t st then sort (validVote1s st) else vr_myB st)"
    by (rule checkProgress_sets(1)[OF a])
  show "vr_myC st' = (if forms_C n t st then sort (validRevotes st) else vr_myC st)"
    by (rule checkProgress_sets(2)[OF a])
next
  show "set (validVote1s st)
     = fst ` {e \<in> set (receivedVote1 st). set (fst (snd e)) \<subseteq> fst ` set (receivedInputs st)}"
    by (rule validVote1s_set)
  show "set (validRevotes st)
     = fst ` {e \<in> set (receivedRevote st). set (fst (snd e)) \<subseteq> set (validVote1s st)}"
    by (rule validRevotes_set)
next
  assume "Vote_deliveries me n t payloads (newVoteRoundState r) = (st', ps, rs)"
  then show "set (vr_myA st') \<subseteq> fst ` set (receivedInputs st')"
    by (rule deliveries_myA_within_inputs) (simp add: newVoteRoundState_def)
qed

lemma before_last_check_result:
  "Vote_checkProgress 1 4 1 before_last_check
     = (late_input_state,
        [\<lparr>vp_Type = Vote_Revote, vp_Sender = 1, vp_Bit = 1, vp_Set = [1, 2, 3], vp_Round = 1\<rparr>], [])"
  by code_simp

lemma before_last_check_valid:
  "forms_B 4 1 before_last_check \<and> validVote1s before_last_check = [1, 2, 3] \<and>
   \<not> forms_C 4 1 before_last_check \<and> vr_myA late_input_state = [1, 2, 3] \<and>
   map fst (receivedInputs late_input_state) = [1, 2, 3, 4]"
  by code_simp

theorem C1_vote_sets_witness:
  "Vote_checkProgress 1 4 1 before_last_check
     = (late_input_state,
        [\<lparr>vp_Type = Vote_Revote, vp_Sender = 1, vp_Bit = 1, vp_Set = [1, 2, 3], vp_Round = 1\<rparr>], []) \<and>
   forms_B 4 1 before_last_check \<and>
   vr_myB late_input_state = sort (validVote1s before_last_check) \<and>
   validVote1s before_last_check = [1, 2, 3] \<and>
   vr_myA late_input_state = [1, 2, 3] \<and>
   map fst (receivedInputs late_input_state) = [1, 2, 3, 4]"
  using C1_vote_sets_follow_current_inputs [of 1 4 1 before_last_check late_input_state
      "[\<lparr>vp_Type = Vote_Revote, vp_Sender = 1, vp_Bit = 1, vp_Set = [1, 2, 3], vp_Round = 1\<rparr>]" "[]"]
    before_last_check_result before_last_check_valid
  by simp


section \<open>ABA: the COMPLETE threshold decides once\<close>

lemma Acast_MSG_no_result:
  "am_Type msg = MSG \<Longrightarrow> Acast_OnMessage msg a = (a', bs, rs) \<Longrightarrow> rs = []"
  by (auto simp: Acast_OnMessage_def Acast_instOnMessage_def split: prod.splits if_splits)

lemma broadcastComplete_fields:
  "broadcastComplete uuid val s = (s', bs) \<Longrightarrow>
   completeCounts s' = completeCounts s \<and> decided s' = decided s \<and> decision s' = decision s \<and>
   hasBroadcastComplete s' = hasBroadcastComplete s \<and> aba_t s' = aba_t s \<and>
   (\<exists>echoes. bs = own_complete uuid val s # echoes)"
  by (auto simp: broadcastComplete_def Let_def CompletePayload_String_def own_complete_def split: prod.splits)

lemma complete_handle_step:
  assumes "handleCompleteDelivery uuid (Json \<lparr>cpl_Sender = sndr, cpl_Value = v\<rparr>) s = (s', bs, rs)"
  shows "completeCounts s' = (completeCounts s)(v := insert sndr (completeCounts s v))"
    and "aba_t s' = aba_t s"
    and "reaches sndr v s \<Longrightarrow> decided s' \<and> decision s' = v \<and> rs = [v] \<and> hasBroadcastComplete s'"
    and "reaches sndr v s \<Longrightarrow> hasBroadcastComplete s \<Longrightarrow> bs = []"
    and "reaches sndr v s \<Longrightarrow> \<not> hasBroadcastComplete s \<Longrightarrow>
           \<exists>echoes. bs = own_complete uuid v s # echoes"
    and "\<not> reaches sndr v s \<Longrightarrow> decided s' = decided s \<and> decision s' = decision s \<and> rs = [] \<and> bs = []
           \<and> hasBroadcastComplete s' = hasBroadcastComplete s"
proof -
  define s1 where "s1 = s\<lparr>completeCounts := (completeCounts s)(v := insert sndr (completeCounts s v))\<rparr>"
  define s2 where "s2 = s1\<lparr>decided := True, decision := v\<rparr>"
  have r: "reaches sndr v s \<longleftrightarrow> int (card (completeCounts s1 v)) \<ge> aba_t s1 + 1 \<and> \<not> decided s1"
    by (auto simp: reaches_def s1_def)
  show "completeCounts s' = (completeCounts s)(v := insert sndr (completeCounts s v))"
    and "aba_t s' = aba_t s"
    using assms
    by (auto simp: handleCompleteDelivery_def Let_def split: if_splits prod.splits
        dest!: broadcastComplete_fields)
  {
    assume "\<not> reaches sndr v s"
    with r have "handleCompleteDelivery uuid (Json \<lparr>cpl_Sender = sndr, cpl_Value = v\<rparr>) s = (s1, [], [])"
      by (auto simp: handleCompleteDelivery_def Let_def s1_def)
    with assms show "decided s' = decided s \<and> decision s' = decision s \<and> rs = [] \<and> bs = []
           \<and> hasBroadcastComplete s' = hasBroadcastComplete s"
      by (auto simp: s1_def)
  }
  {
    assume a: "reaches sndr v s" and h: "hasBroadcastComplete s"
    with r have "handleCompleteDelivery uuid (Json \<lparr>cpl_Sender = sndr, cpl_Value = v\<rparr>) s = (s2, [], [v])"
      by (auto simp: handleCompleteDelivery_def Let_def s1_def s2_def)
    with assms show "bs = []" by simp
  }
  {
    assume a: "reaches sndr v s"
    show "decided s' \<and> decision s' = v \<and> rs = [v] \<and> hasBroadcastComplete s'"
    proof (cases "hasBroadcastComplete s")
      case True
      with a r have "handleCompleteDelivery uuid (Json \<lparr>cpl_Sender = sndr, cpl_Value = v\<rparr>) s = (s2, [], [v])"
        by (auto simp: handleCompleteDelivery_def Let_def s1_def s2_def)
      with assms True show ?thesis by (auto simp: s1_def s2_def)
    next
      case False
      obtain s3 bs3 where b: "broadcastComplete uuid v s2 = (s3, bs3)"
        by (cases "broadcastComplete uuid v s2 ") auto
      with a r False
      have "handleCompleteDelivery uuid (Json \<lparr>cpl_Sender = sndr, cpl_Value = v\<rparr>) s
              = (s3\<lparr>hasBroadcastComplete := True\<rparr>, bs3, [v])"
        by (auto simp: handleCompleteDelivery_def Let_def s1_def s2_def)
      with assms broadcastComplete_fields[OF b] show ?thesis by (auto simp: s2_def)
    qed
  }
  {
    assume a: "reaches sndr v s" and h: "\<not> hasBroadcastComplete s"
    obtain s3 bs3 where b: "broadcastComplete uuid v s2 = (s3, bs3)"
      by (cases "broadcastComplete uuid v s2 ") auto
    with a r h
    have "handleCompleteDelivery uuid (Json \<lparr>cpl_Sender = sndr, cpl_Value = v\<rparr>) s
            = (s3\<lparr>hasBroadcastComplete := True\<rparr>, bs3, [v])"
      by (auto simp: handleCompleteDelivery_def Let_def s1_def s2_def)
    with assms broadcastComplete_fields[OF b]
    show "\<exists>echoes. bs = own_complete uuid v s # echoes"
      by (auto simp: s2_def s1_def own_complete_def)
  }
qed


lemma broadcastComplete_envelopes:
  assumes "broadcastComplete uuid val s = (s', bs)"
  shows "\<exists>a' abcs vals.
           Acast_OnMessage \<lparr>am_Type = MSG, am_UUID = uuid,
                            am_Val = Json \<lparr>cpl_Sender = aba_id s, cpl_Value = val\<rparr>,
                            am_From = aba_id s\<rparr> (acastComplete s) = (a', abcs, vals) \<and>
           acastComplete s' = a' \<and>
           bs = map (\<lambda>am. \<lparr>abm_Type = ABA_Complete, abm_Round = 0, abm_VoteMsg = None,
                              abm_ICCMsg = None, abm_CompleteMsg = Some am\<rparr>)
                    (\<lparr>am_Type = MSG, am_UUID = uuid,
                      am_Val = Json \<lparr>cpl_Sender = aba_id s, cpl_Value = val\<rparr>,
                      am_From = aba_id s\<rparr> # abcs)"
proof -
  let ?msg = "\<lparr>am_Type = MSG, am_UUID = uuid,
               am_Val = Json \<lparr>cpl_Sender = aba_id s, cpl_Value = val\<rparr>, am_From = aba_id s\<rparr>"
  obtain a' abcs vals where a: "Acast_OnMessage ?msg (acastComplete s) = (a', abcs, vals)"
    by (cases "Acast_OnMessage ?msg (acastComplete s)") auto
  with assms have "s' = s\<lparr>acastComplete := a'\<rparr>" "bs = complete_wrap ?msg # map complete_wrap abcs"
    by (simp_all add: broadcastComplete_def Let_def NewACastMessage_def CompletePayload_String_def)
  with a show ?thesis by (auto simp: complete_wrap_def)
qed

lemma complete_handle_own_broadcast:
  assumes "handleCompleteDelivery uuid (Json \<lparr>cpl_Sender = sndr, cpl_Value = v\<rparr>) s = (s', bs, rs)"
    and "reaches sndr v s" and "\<not> hasBroadcastComplete s"
  shows "\<exists>a' abcs vals.
           Acast_OnMessage \<lparr>am_Type = MSG, am_UUID = uuid,
                            am_Val = Json \<lparr>cpl_Sender = aba_id s, cpl_Value = v\<rparr>,
                            am_From = aba_id s\<rparr> (acastComplete s) = (a', abcs, vals) \<and>
           acastComplete s' = a' \<and>
           bs = map (\<lambda>am. \<lparr>abm_Type = ABA_Complete, abm_Round = 0, abm_VoteMsg = None,
                              abm_ICCMsg = None, abm_CompleteMsg = Some am\<rparr>)
                    (\<lparr>am_Type = MSG, am_UUID = uuid,
                      am_Val = Json \<lparr>cpl_Sender = aba_id s, cpl_Value = v\<rparr>,
                      am_From = aba_id s\<rparr> # abcs)"
proof -
  define s1 where "s1 = s\<lparr>completeCounts := (completeCounts s)(v := insert sndr (completeCounts s v))\<rparr>"
  define s2 where "s2 = s1\<lparr>decided := True, decision := v\<rparr>"
  have r: "int (card (completeCounts s1 v)) \<ge> aba_t s1 + 1 \<and> \<not> decided s1"
    using assms(2) by (auto simp: reaches_def s1_def)
  obtain s3 bs3 where b: "broadcastComplete uuid v s2 = (s3, bs3)"
    by (cases "broadcastComplete uuid v s2") auto
  with r assms(3)
  have "handleCompleteDelivery uuid (Json \<lparr>cpl_Sender = sndr, cpl_Value = v\<rparr>) s
          = (s3\<lparr>hasBroadcastComplete := True\<rparr>, bs3, [v])"
    by (auto simp: handleCompleteDelivery_def Let_def s1_def s2_def)
  with assms(1) have e: "s' = s3\<lparr>hasBroadcastComplete := True\<rparr>" "bs = bs3" by simp_all
  have i: "aba_id s2 = aba_id s" "acastComplete s2 = acastComplete s" by (simp_all add: s2_def s1_def)
  from broadcastComplete_envelopes[OF b] e i show ?thesis by simp
qed

lemma complete_handle_malformed:
  "handleCompleteDelivery uuid (Malformed x) s = (s, [], [])"
  by (simp add: handleCompleteDelivery_def)

lemma complete_handle_results:
  assumes "handleCompleteDelivery uuid valStr s = (s', bs, rs)"
  shows "(decided s \<longrightarrow> decided s' \<and> decision s' = decision s \<and> rs = []) \<and>
         (\<not> decided s \<longrightarrow> rs = (if decided s' then [decision s'] else []))"
proof (cases valStr)
  case (Malformed x)
  with assms show ?thesis by (simp add: complete_handle_malformed)
next
  case (Json p)
  then have v: "valStr = Json \<lparr>cpl_Sender = cpl_Sender p, cpl_Value = cpl_Value p\<rparr>" by simp
  note h = complete_handle_step[OF assms[unfolded v]]
  show ?thesis
  proof (cases "reaches (cpl_Sender p) (cpl_Value p) s")
    case True
    with h(3) show ?thesis by (auto simp: reaches_def)
  next
    case False
    with h(6) show ?thesis by auto
  qed
qed

lemma complete_deliveries_results:
  "completeDeliveries ds s = (s', bs, rs) \<Longrightarrow>
   (decided s \<longrightarrow> decided s' \<and> decision s' = decision s \<and> rs = []) \<and>
   (\<not> decided s \<longrightarrow> rs = (if decided s' then [decision s'] else []))"
proof (induction ds arbitrary: s s' bs rs)
  case Nil
  then show ?case by auto
next
  case (Cons d ds)
  obtain uuid valStr where d: "d = (uuid, valStr)" by (cases d) auto
  obtain s1 bs1 rs1 where a: "handleCompleteDelivery uuid valStr s = (s1, bs1, rs1)"
    by (cases "handleCompleteDelivery uuid valStr s") auto
  obtain s2 bs2 rs2 where b: "completeDeliveries ds s1 = (s2, bs2, rs2)"
    by (cases "completeDeliveries ds s1") auto
  from Cons.prems d a b have e: "s' = s2" "rs = rs1 @ rs2" by auto
  note h = complete_handle_results[OF a] and ih = Cons.IH[OF b]
  show ?case
  proof (cases "decided s")
    case True
    with h ih e show ?thesis by auto
  next
    case False
    show ?thesis
    proof (cases "decided s1")
      case True
      with False h ih e show ?thesis by auto
    next
      case f1: False
      with False h ih e show ?thesis by auto
    qed
  qed
qed

lemma complete_handle_inv:
  assumes "handleCompleteDelivery uuid valStr s = (s', bs, rs)" "complete_inv t s"
  shows "complete_inv t s'"
proof (cases valStr)
  case (Malformed x)
  with assms show ?thesis by (simp add: complete_handle_malformed)
next
  case (Json p)
  then have v: "valStr = Json \<lparr>cpl_Sender = cpl_Sender p, cpl_Value = cpl_Value p\<rparr>" by simp
  note h = complete_handle_step[OF assms(1)[unfolded v]]
  let ?v = "cpl_Value p" and ?j = "cpl_Sender p"
  from assms(2) have t: "aba_t s = t" and f: "\<And>w. finite (completeCounts s w)"
    and d: "decided s \<longleftrightarrow> (\<exists>w. int (card (completeCounts s w)) \<ge> t + 1)"
    by (auto simp: complete_inv_def)
  have cc: "completeCounts s' = (completeCounts s)(?v := insert ?j (completeCounts s ?v))" by (rule h(1))
  have f': "\<And>w. finite (completeCounts s' w)" using f by (simp add: cc)
  have mono: "\<And>w. card (completeCounts s w) \<le> card (completeCounts s' w)"
    using f by (auto simp: cc card_insert_le)
  show ?thesis
  proof (cases "reaches ?j ?v s")
    case True
    with h(3) have ds: "decided s'" by simp
    from True t have "int (card (completeCounts s' ?v)) \<ge> t + 1" by (simp add: reaches_def cc)
    with ds f' h(2) t show ?thesis unfolding complete_inv_def by blast
  next
    case False
    with h(6) have ds: "decided s' = decided s" by simp
    show ?thesis
    proof (cases "decided s")
      case True
      with d obtain w where "int (card (completeCounts s w)) \<ge> t + 1" by blast
      with mono[of w] have "int (card (completeCounts s' w)) \<ge> t + 1" by linarith
      with True ds f' h(2) t show ?thesis unfolding complete_inv_def by blast
    next
      case nd: False
      with False t have lt: "int (card (completeCounts s' ?v)) < t + 1" by (simp add: reaches_def cc)
      have "\<And>w. int (card (completeCounts s' w)) < t + 1"
      proof -
        fix w
        show "int (card (completeCounts s' w)) < t + 1"
        proof (cases "w = ?v")
          case True
          with lt show ?thesis by simp
        next
          case False
          then have "completeCounts s' w = completeCounts s w" by (simp add: cc)
          with nd d show ?thesis by (metis not_le)
        qed
      qed
      then have "\<not> (\<exists>w. int (card (completeCounts s' w)) \<ge> t + 1)" by (metis not_le)
      with nd ds f' h(2) t show ?thesis unfolding complete_inv_def by blast
    qed
  qed
qed

lemma complete_deliveries_inv:
  "completeDeliveries ds s = (s', bs, rs) \<Longrightarrow> complete_inv t s \<Longrightarrow> complete_inv t s'"
proof (induction ds arbitrary: s s' bs rs)
  case Nil
  then show ?case by simp
next
  case (Cons d ds)
  obtain uuid valStr where d: "d = (uuid, valStr)" by (cases d) auto
  obtain s1 bs1 rs1 where a: "handleCompleteDelivery uuid valStr s = (s1, bs1, rs1)"
    by (cases "handleCompleteDelivery uuid valStr s") auto
  obtain s2 bs2 rs2 where b: "completeDeliveries ds s1 = (s2, bs2, rs2)"
    by (cases "completeDeliveries ds s1") auto
  from Cons.prems(1) d a b have e: "s' = s2" by auto
  from Cons.IH[OF b complete_handle_inv[OF a Cons.prems(2)]] e show ?case by simp
qed

lemma complete_fresh_inv: "0 \<le> t \<Longrightarrow> complete_inv t (NewABAService i n t e rest)"
  by (simp add: complete_inv_def NewABAService_def)


text \<open>
  Claim C4. Each delivery of COMPLETE(sender, v) inserts the sender into
  \<open>complete_counts[v]\<close>. If this takes the count of \<open>v\<close> to \<open>t + 1\<close> while the node is
  undecided, the node sets \<open>decided\<close> and \<open>decision := v\<close>, emits \<open>v\<close> to the driver, and, if
  it had not broadcast its own COMPLETE, A-Casts COMPLETE(v) and sets
  \<open>has_broadcast_complete\<close>: it broadcasts an \<^verbatim>\<open>ABA_Complete\<close> envelope whose
  \<^verbatim>\<open>CompleteMsg\<close> is the MSG message of a new A-Cast, sent by the node, with the payload
  COMPLETE(sender = own id, value = v) as its value, hands that message to its own
  A-Cast engine and broadcasts what the engine sends (its ECHO), each in an
  \<^verbatim>\<open>ABA_Complete\<close> envelope. Otherwise the delivery changes nothing else and emits
  nothing. Over any run of deliveries the decision is emitted at most once, and exactly
  when the node becomes decided. Started from a new service (\<open>t \<ge> 0\<close>), the node is decided
  exactly when some value has at least \<open>t + 1\<close> senders: the first delivery that brings
  some value to the threshold is the one that decides.
\<close>

theorem C4_complete_threshold_decides:
  "(handleCompleteDelivery uuid (Json \<lparr>cpl_Sender = sndr, cpl_Value = v\<rparr>) s = (s', bs, rs) \<longrightarrow>
      completeCounts s' = (completeCounts s)(v := insert sndr (completeCounts s v)) \<and>
      (reaches sndr v s \<longrightarrow>
         decided s' \<and> decision s' = v \<and> rs = [v] \<and> hasBroadcastComplete s' \<and>
         (hasBroadcastComplete s \<longrightarrow> bs = []) \<and>
         (\<not> hasBroadcastComplete s \<longrightarrow>
            (\<exists>a' abcs vals.
               Acast_OnMessage \<lparr>am_Type = MSG, am_UUID = uuid,
                                am_Val = Json \<lparr>cpl_Sender = aba_id s, cpl_Value = v\<rparr>,
                                am_From = aba_id s\<rparr> (acastComplete s) = (a', abcs, vals) \<and>
               acastComplete s' = a' \<and>
               bs = map (\<lambda>am. \<lparr>abm_Type = ABA_Complete, abm_Round = 0, abm_VoteMsg = None,
                                  abm_ICCMsg = None, abm_CompleteMsg = Some am\<rparr>)
                        (\<lparr>am_Type = MSG, am_UUID = uuid,
                          am_Val = Json \<lparr>cpl_Sender = aba_id s, cpl_Value = v\<rparr>,
                          am_From = aba_id s\<rparr> # abcs)))) \<and>
      (\<not> reaches sndr v s \<longrightarrow>
         decided s' = decided s \<and> decision s' = decision s \<and> rs = [] \<and> bs = [] \<and>
         hasBroadcastComplete s' = hasBroadcastComplete s)) \<and>
   (completeDeliveries ds s = (s2, bs2, rs2) \<longrightarrow>
      length rs2 \<le> 1 \<and> (decided s \<longrightarrow> rs2 = []) \<and>
      (\<not> decided s \<longrightarrow> rs2 = (if decided s2 then [decision s2] else []))) \<and>
   (0 \<le> t \<and> completeDeliveries ds (NewABAService i n t e rest) = (s3, bs3, rs3) \<longrightarrow>
      (decided s3 \<longleftrightarrow> (\<exists>w. int (card (completeCounts s3 w)) \<ge> t + 1)) \<and>
      rs3 = (if decided s3 then [decision s3] else []))"
proof (intro conjI impI)
  assume a: "handleCompleteDelivery uuid (Json \<lparr>cpl_Sender = sndr, cpl_Value = v\<rparr>) s = (s', bs, rs)"
  note h = complete_handle_step[OF a]
  show "completeCounts s' = (completeCounts s)(v := insert sndr (completeCounts s v))" by (rule h(1))
  {
    assume r: "reaches sndr v s"
    from h(3)[OF r] show "decided s'" "decision s' = v" "rs = [v]" "hasBroadcastComplete s'" by simp_all
    { assume "hasBroadcastComplete s" with h(4)[OF r] show "bs = []" by simp }
    { assume nb: "\<not> hasBroadcastComplete s"
      show "\<exists>a' abcs vals.
               Acast_OnMessage \<lparr>am_Type = MSG, am_UUID = uuid,
                                am_Val = Json \<lparr>cpl_Sender = aba_id s, cpl_Value = v\<rparr>,
                                am_From = aba_id s\<rparr> (acastComplete s) = (a', abcs, vals) \<and>
               acastComplete s' = a' \<and>
               bs = map (\<lambda>am. \<lparr>abm_Type = ABA_Complete, abm_Round = 0, abm_VoteMsg = None,
                                  abm_ICCMsg = None, abm_CompleteMsg = Some am\<rparr>)
                        (\<lparr>am_Type = MSG, am_UUID = uuid,
                          am_Val = Json \<lparr>cpl_Sender = aba_id s, cpl_Value = v\<rparr>,
                          am_From = aba_id s\<rparr> # abcs)"
        by (rule complete_handle_own_broadcast[OF a r nb]) }
  }
  {
    assume r: "\<not> reaches sndr v s"
    from h(6)[OF r] show "decided s' = decided s" "decision s' = decision s" "rs = []" "bs = []"
      "hasBroadcastComplete s' = hasBroadcastComplete s" by simp_all
  }
next
  assume a: "completeDeliveries ds s = (s2, bs2, rs2)"
  note r = complete_deliveries_results[OF a]
  from r show "length rs2 \<le> 1" by (cases "decided s") auto
  { assume "decided s" with r show "rs2 = []" by simp }
  { assume "\<not> decided s" with r show "rs2 = (if decided s2 then [decision s2] else [])" by simp }
next
  assume a: "0 \<le> t \<and> completeDeliveries ds (NewABAService i n t e rest) = (s3, bs3, rs3)"
  then have d: "completeDeliveries ds (NewABAService i n t e rest) = (s3, bs3, rs3)" and t: "0 \<le> t" by simp_all
  from complete_deliveries_inv[OF d complete_fresh_inv[OF t]]
  show "decided s3 \<longleftrightarrow> (\<exists>w. int (card (completeCounts s3 w)) \<ge> t + 1)"
    by (simp add: complete_inv_def)
  from complete_deliveries_results[OF d]
  show "rs3 = (if decided s3 then [decision s3] else [])" by (simp add: NewABAService_def)
qed

lemma third_complete_decides:
  "handleCompleteDelivery ''c3'' (Json \<lparr>cpl_Sender = 3, cpl_Value = 1\<rparr>) aba_one_complete
     = (aba_decided,
        [\<lparr>abm_Type = ABA_Complete, abm_Round = 0, abm_VoteMsg = None, abm_ICCMsg = None,
          abm_CompleteMsg = Some \<lparr>am_Type = MSG, am_UUID = ''c3'',
                                   am_Val = Json \<lparr>cpl_Sender = 1, cpl_Value = 1\<rparr>, am_From = 1\<rparr>\<rparr>,
         \<lparr>abm_Type = ABA_Complete, abm_Round = 0, abm_VoteMsg = None, abm_ICCMsg = None,
          abm_CompleteMsg = Some \<lparr>am_Type = ECHO, am_UUID = ''c3'',
                                   am_Val = Json \<lparr>cpl_Sender = 1, cpl_Value = 1\<rparr>, am_From = 1\<rparr>\<rparr>],
        [1])"
  by (simp add: handleCompleteDelivery_def aba_one_complete_def aba_decided_def aba_fresh_def
      NewABAService_def Let_def broadcastComplete_def NewACastMessage_def CompletePayload_String_def
      Acast_OnMessage_def Acast_getInstance_def Acast_instOnMessage_def NewAcastService_def
      NewACastInstance_def complete_wrap_def fun_upd_twist)

lemma own_complete_engine_step:
  "Acast_OnMessage \<lparr>am_Type = MSG, am_UUID = ''c3'',
                    am_Val = Json \<lparr>cpl_Sender = 1, cpl_Value = 1\<rparr>, am_From = 1\<rparr>
     (acastComplete aba_one_complete)
   = (acastComplete aba_decided,
      [\<lparr>am_Type = ECHO, am_UUID = ''c3'', am_Val = Json \<lparr>cpl_Sender = 1, cpl_Value = 1\<rparr>,
        am_From = 1\<rparr>], [])"
  by (simp add: aba_one_complete_def aba_decided_def aba_fresh_def NewABAService_def
      Acast_OnMessage_def Acast_getInstance_def Acast_instOnMessage_def NewAcastService_def
      NewACastInstance_def)

lemma three_completes_run:
  "decided (fst (completeDeliveries three_completes aba_fresh)) \<and>
   decision (fst (completeDeliveries three_completes aba_fresh)) = 1 \<and>
   snd (snd (completeDeliveries three_completes aba_fresh)) = [1]"
  by (simp add: three_completes_def complete_from_def handleCompleteDelivery_def aba_fresh_def
      NewABAService_def Let_def broadcastComplete_def NewACastMessage_def CompletePayload_String_def
      Acast_OnMessage_def Acast_getInstance_def Acast_instOnMessage_def NewAcastService_def
      NewACastInstance_def split_beta)

theorem C4_complete_threshold_witness:
  "handleCompleteDelivery ''c3'' (Json \<lparr>cpl_Sender = 3, cpl_Value = 1\<rparr>) aba_one_complete
     = (aba_decided,
        [\<lparr>abm_Type = ABA_Complete, abm_Round = 0, abm_VoteMsg = None, abm_ICCMsg = None,
          abm_CompleteMsg = Some \<lparr>am_Type = MSG, am_UUID = ''c3'',
                                   am_Val = Json \<lparr>cpl_Sender = 1, cpl_Value = 1\<rparr>, am_From = 1\<rparr>\<rparr>,
         \<lparr>abm_Type = ABA_Complete, abm_Round = 0, abm_VoteMsg = None, abm_ICCMsg = None,
          abm_CompleteMsg = Some \<lparr>am_Type = ECHO, am_UUID = ''c3'',
                                   am_Val = Json \<lparr>cpl_Sender = 1, cpl_Value = 1\<rparr>, am_From = 1\<rparr>\<rparr>],
        [1]) \<and>
   reaches 3 1 aba_one_complete \<and> \<not> hasBroadcastComplete aba_one_complete \<and>
   aba_id aba_one_complete = 1 \<and>
   (\<exists>abcs vals.
      Acast_OnMessage \<lparr>am_Type = MSG, am_UUID = ''c3'',
                       am_Val = Json \<lparr>cpl_Sender = 1, cpl_Value = 1\<rparr>, am_From = 1\<rparr>
        (acastComplete aba_one_complete) = (acastComplete aba_decided, abcs, vals)) \<and>
   decided aba_decided \<and> decision aba_decided = 1 \<and> hasBroadcastComplete aba_decided \<and>
   completeCounts aba_decided = (completeCounts aba_one_complete)(1 := insert 3 (completeCounts aba_one_complete 1)) \<and>
   \<not> decided aba_fresh \<and> (0::int) \<le> 1 \<and>
   decided (fst (completeDeliveries three_completes aba_fresh)) \<and>
   snd (snd (completeDeliveries three_completes aba_fresh))
     = [decision (fst (completeDeliveries three_completes aba_fresh))] \<and>
   length (snd (snd (completeDeliveries three_completes aba_fresh))) \<le> 1 \<and>
   (\<exists>w. int (card (completeCounts (fst (completeDeliveries three_completes aba_fresh)) w)) \<ge> 1 + 1)"
proof -
  let ?run = "completeDeliveries three_completes aba_fresh"
  let ?bs = "[\<lparr>abm_Type = ABA_Complete, abm_Round = 0, abm_VoteMsg = None, abm_ICCMsg = None,
          abm_CompleteMsg = Some \<lparr>am_Type = MSG, am_UUID = ''c3'',
                                   am_Val = Json \<lparr>cpl_Sender = 1, cpl_Value = 1\<rparr>, am_From = 1\<rparr>\<rparr>,
         \<lparr>abm_Type = ABA_Complete, abm_Round = 0, abm_VoteMsg = None, abm_ICCMsg = None,
          abm_CompleteMsg = Some \<lparr>am_Type = ECHO, am_UUID = ''c3'',
                                   am_Val = Json \<lparr>cpl_Sender = 1, cpl_Value = 1\<rparr>, am_From = 1\<rparr>\<rparr>]"
  have r: "reaches 3 1 aba_one_complete" "\<not> hasBroadcastComplete aba_one_complete"
    by (simp_all add: reaches_def aba_one_complete_def aba_fresh_def NewABAService_def)
  have i: "aba_id aba_one_complete = 1"
    by (simp add: aba_one_complete_def aba_fresh_def NewABAService_def)
  have f: "\<not> decided aba_fresh" by (simp add: aba_fresh_def NewABAService_def)
  have p': "(0::int) \<le> 1 \<and> completeDeliveries three_completes (NewABAService 1 4 1 1 ())
               = (fst ?run, fst (snd ?run), snd (snd ?run))"
    by (simp add: aba_fresh_def)
  note c4 = C4_complete_threshold_decides
    [where uuid = "''c3''" and sndr = 3 and v = 1 and s = aba_one_complete and s' = aba_decided
       and bs = ?bs
       and rs = "[1]" and ds = three_completes and ?s2.0 = "fst ?run" and ?bs2.0 = "fst (snd ?run)"
       and ?rs2.0 = "snd (snd ?run)" and t = 1 and i = 1 and n = 4 and e = 1 and rest = "()"
       and ?s3.0 = "fst ?run" and ?bs3.0 = "fst (snd ?run)" and ?rs3.0 = "snd (snd ?run)"]
  from c4 third_complete_decides r
  have 1: "decided aba_decided \<and> decision aba_decided = 1 \<and> hasBroadcastComplete aba_decided \<and>
     completeCounts aba_decided = (completeCounts aba_one_complete)(1 := insert 3 (completeCounts aba_one_complete 1))"
    by blast
  from c4 third_complete_decides r
  have "\<exists>a' abcs vals.
      Acast_OnMessage \<lparr>am_Type = MSG, am_UUID = ''c3'',
                       am_Val = Json \<lparr>cpl_Sender = aba_id aba_one_complete, cpl_Value = 1\<rparr>,
                       am_From = aba_id aba_one_complete\<rparr>
        (acastComplete aba_one_complete) = (a', abcs, vals) \<and> acastComplete aba_decided = a'"
    by blast
  with i have 4: "\<exists>abcs vals.
      Acast_OnMessage \<lparr>am_Type = MSG, am_UUID = ''c3'',
                       am_Val = Json \<lparr>cpl_Sender = 1, cpl_Value = 1\<rparr>, am_From = 1\<rparr>
        (acastComplete aba_one_complete) = (acastComplete aba_decided, abcs, vals)"
    by auto
  from c4 p' have 2: "(decided (fst ?run) \<longleftrightarrow> (\<exists>w. int (card (completeCounts (fst ?run) w)) \<ge> 1 + 1)) \<and>
      snd (snd ?run) = (if decided (fst ?run) then [decision (fst ?run)] else [])"
    by blast
  from 2 have 3: "length (snd (snd ?run)) \<le> 1"
    by (cases "decided (fst ?run)") simp_all
  from three_completes_run have d: "decided (fst ?run)" by simp
  from 1 2 3 4 d r i f third_complete_decides show ?thesis by simp
qed


section \<open>ICC: the decision check\<close>

lemma sum_values_complete:
  "(\<forall>k \<in> set Tj. rv (k, j) \<noteq> None) \<Longrightarrow> sum_values rv j Tj = Some (\<Sum>k \<leftarrow> Tj. the (rv (k, j)))"
  by (induction Tj) auto

lemma sum_values_incomplete:
  "\<not> (\<forall>k \<in> set Tj. rv (k, j) \<noteq> None) \<Longrightarrow> sum_values rv j Tj = None"
proof (induction Tj)
  case Nil
  then show ?case by simp
next
  case (Cons k Tj)
  show ?case
  proof (cases "rv (k, j)")
    case None
    then show ?thesis by simp
  next
    case (Some y)
    with Cons.prems have "\<not> (\<forall>k \<in> set Tj. rv (k, j) \<noteq> None)" by auto
    from Cons.IH[OF this] Some show ?thesis by simp
  qed
qed

lemma scan_H_step_known:
  assumes "values_known s j" "0 < icc_u s"
  shows "scan_H s (j # H) hz = scan_H s H (hz \<or> spec_v s j = 0)"
proof -
  from assms(1) obtain Tj where t: "receivedT s j = Some Tj"
    and k: "\<forall>k \<in> set Tj. reconstructedValues s (k, j) \<noteq> None"
    by (auto simp: values_known_def)
  from sum_values_complete[OF k] t assms(2) show ?thesis
    by (simp add: spec_v_def big_Mod_def)
qed

lemma scan_H_step_unknown:
  assumes "\<not> values_known s j"
  shows "scan_H s (j # H) hz = Inr (False, hz)"
proof (cases "receivedT s j")
  case None
  then show ?thesis by simp
next
  case (Some Tj)
  with assms have "\<not> (\<forall>k \<in> set Tj. reconstructedValues s (k, j) \<noteq> None)"
    by (simp add: values_known_def)
  from sum_values_incomplete[OF this] Some show ?thesis by simp
qed

lemma scan_H_all_known:
  "0 < icc_u s \<Longrightarrow> \<forall>j \<in> set H. values_known s j \<Longrightarrow>
   scan_H s H hz = Inr (True, hz \<or> (\<exists>j \<in> set H. spec_v s j = 0))"
proof (induction H arbitrary: hz)
  case Nil
  then show ?case by simp
next
  case (Cons j H)
  from Cons.prems have k: "values_known s j" and r: "\<forall>j \<in> set H. values_known s j" by simp_all
  from scan_H_step_known[OF k Cons.prems(1)] Cons.IH[OF Cons.prems(1) r]
  show ?case by auto
qed

lemma scan_H_some_unknown:
  "0 < icc_u s \<Longrightarrow> \<not> (\<forall>j \<in> set H. values_known s j) \<Longrightarrow> \<exists>hz'. scan_H s H hz = Inr (False, hz')"
proof (induction H arbitrary: hz)
  case Nil
  then show ?case by simp
next
  case (Cons j H)
  show ?case
  proof (cases "values_known s j")
    case False
    from scan_H_step_unknown[OF False] show ?thesis by blast
  next
    case True
    with Cons.prems(2) have "\<not> (\<forall>j \<in> set H. values_known s j)" by simp
    from Cons.IH[OF Cons.prems(1) this] scan_H_step_known[OF True Cons.prems(1)]
    show ?thesis by simp
  qed
qed

lemma spec_qualifies_iff:
  "spec_qualifies s (frm, H, S) \<longleftrightarrow>
     sentAccept s \<and> sentReconstruct s \<and> isSubset H (icc_myA s) \<and> isSubset S (icc_myS s)
     \<and> (\<forall>j \<in> set H. values_known s j)"
  by (auto simp: spec_qualifies_def isSubset_def list_all_iff subset_iff)

lemma scan_final_sets_skip:
  assumes "0 < icc_u s" "\<not> spec_qualifies s fs"
  shows "scan_final_sets s (fs # rest) = scan_final_sets s rest"
proof -
  obtain frm H S where f: "fs = (frm, H, S)" by (cases fs) auto
  show ?thesis
  proof (cases "sentAccept s \<and> sentReconstruct s \<and> isSubset H (icc_myA s) \<and> isSubset S (icc_myS s)")
    case False
    with f show ?thesis by auto
  next
    case True
    with assms(2) f have "\<not> (\<forall>j \<in> set H. values_known s j)" by (simp add: spec_qualifies_iff)
    from scan_H_some_unknown[OF assms(1) this] obtain hz' where "scan_H s H False = Inr (False, hz')"
      by blast
    with True f show ?thesis by simp
  qed
qed

lemma scan_final_sets_hit:
  assumes "0 < icc_u s" "spec_qualifies s (frm, H, S)"
  shows "scan_final_sets s ((frm, H, S) # rest)
           = Inr (s\<lparr>icc_finished := True\<rparr>, [\<lparr>Coin = spec_coin s H\<rparr>])"
proof -
  from assms(2) have g: "sentAccept s \<and> sentReconstruct s \<and> isSubset H (icc_myA s) \<and> isSubset S (icc_myS s)"
    and k: "\<forall>j \<in> set H. values_known s j" by (simp_all add: spec_qualifies_iff)
  from scan_H_all_known[OF assms(1) k, of False] g show ?thesis
    by (simp add: spec_coin_def)
qed

lemma scan_final_sets_first:
  "0 < icc_u s \<Longrightarrow> \<forall>fs \<in> set pre. \<not> spec_qualifies s fs \<Longrightarrow> spec_qualifies s (frm, H, S) \<Longrightarrow>
   scan_final_sets s (pre @ (frm, H, S) # post)
     = Inr (s\<lparr>icc_finished := True\<rparr>, [\<lparr>Coin = spec_coin s H\<rparr>])"
proof (induction pre)
  case Nil
  then show ?case by (simp only: append_Nil scan_final_sets_hit)
next
  case (Cons fs pre)
  then have "\<not> spec_qualifies s fs" by simp
  from scan_final_sets_skip[OF Cons.prems(1) this] Cons show ?case
    by (simp del: scan_final_sets.simps)
qed

lemma scan_final_sets_none:
  "0 < icc_u s \<Longrightarrow> \<forall>fs \<in> set l. \<not> spec_qualifies s fs \<Longrightarrow> scan_final_sets s l = Inr (s, [])"
proof (induction l)
  case Nil
  then show ?case by simp
next
  case (Cons fs l)
  then have "\<not> spec_qualifies s fs" by simp
  from scan_final_sets_skip[OF Cons.prems(1) this] Cons show ?case
    by (simp del: scan_final_sets.simps)
qed

lemma scan_final_sets_latch:
  "scan_final_sets s l = Inr (s', rs) \<Longrightarrow>
   length rs \<le> 1 \<and> (rs \<noteq> [] \<longrightarrow> icc_finished s') \<and> (icc_finished s \<longrightarrow> icc_finished s')"
proof (induction l)
  case Nil
  then show ?case by auto
next
  case (Cons fs l)
  obtain frm H S where f: "fs = (frm, H, S)" by (cases fs) auto
  from Cons show ?case unfolding f
    by (auto split: if_splits sum.splits prod.splits)
qed

lemma checkDecision_latch:
  "checkDecision s = Inr (s', rs) \<Longrightarrow>
   length rs \<le> 1 \<and> (rs \<noteq> [] \<longrightarrow> icc_finished s' \<and> \<not> icc_finished s) \<and> (icc_finished s \<longrightarrow> icc_finished s' \<and> rs = [])"
  using scan_final_sets_latch[of s "receivedFinalSets s" s' rs]
  by (auto simp: checkDecision_def split: if_splits)

lemma decision_run_once:
  "\<forall>f \<in> set fs. keeps_finished f \<Longrightarrow> decision_run fs s = Inr (s', rs) \<Longrightarrow>
   length rs \<le> 1 \<and> (icc_finished s \<longrightarrow> rs = []) \<and> (rs \<noteq> [] \<longrightarrow> icc_finished s')"
proof (induction fs arbitrary: s s' rs)
  case Nil
  then show ?case by simp
next
  case (Cons f fs)
  from Cons.prems(2) obtain s1 rs1 s2 rs2 where
    a: "checkDecision (f s) = Inr (s1, rs1)" and b: "decision_run fs s1 = Inr (s2, rs2)"
    and e: "s' = s2" "rs = rs1 @ rs2"
    by (auto split: sum.splits prod.splits)
  from Cons.prems(1) have kf: "icc_finished (f s) = icc_finished s" and r: "\<forall>f \<in> set fs. keeps_finished f"
    by (simp_all add: keeps_finished_def)
  note c = checkDecision_latch[OF a] and ih = Cons.IH[OF r b]
  show ?case
  proof (cases "rs1 = []")
    case True
    with c ih e kf show ?thesis by auto
  next
    case False
    with c have "icc_finished s1" by simp
    with ih have "rs2 = []" by simp
    moreover have "icc_finished s2 \<or> rs2 \<noteq> []"
      using b \<open>icc_finished s1\<close> r
    proof (induction fs arbitrary: s1 s2 rs2)
      case Nil
      then show ?case by simp
    next
      case (Cons g gs)
      from Cons.prems(1) obtain t1 q1 t2 q2 where
        a': "checkDecision (g s1) = Inr (t1, q1)" and b': "decision_run gs t1 = Inr (t2, q2)"
        and e': "s2 = t2" "rs2 = q1 @ q2"
        by (auto split: sum.splits prod.splits)
      from Cons.prems(2,3) have "icc_finished (g s1)" by (simp add: keeps_finished_def)
      with checkDecision_latch[OF a'] have "icc_finished t1" by simp
      from Cons.IH[OF b' this] Cons.prems(3) e' show ?case by auto
    qed
    ultimately show ?thesis using c e kf False by auto
  qed
qed


text \<open>
  Claim C5. Let \<open>my_A\<close> and \<open>my_S\<close> be fixed (ACCEPT and FINAL_SETS sent) and \<open>u > 0\<close>. If
  the instance is not finished and \<open>(H, S)\<close> is the first stored FINAL_SETS pair with
  \<open>H \<subseteq> my_A\<close>, \<open>S \<subseteq> my_S\<close> and, for every \<open>j\<close> in \<open>H\<close>, a recorded value for every \<open>k\<close> in
  \<open>received_T[j]\<close>, then \<^verbatim>\<open>checkDecision\<close> latches \<open>finished\<close> and emits exactly one
  \<^verbatim>\<open>ICCResult\<close>, with coin 0 if some \<open>v\<^sub>j = (\<Sum>k \<in> received_T[j]. value[k][j]) mod u\<close>,
  \<open>j \<in> H\<close>, is 0 and coin 1 otherwise. Without a qualifying pair it emits nothing. Once
  finished it does nothing, so over any run of checks of one instance at most one result
  is emitted and later qualifying pairs are ignored.
\<close>

theorem C5_icc_decision_coin:
  "(0 < icc_u s \<and> \<not> icc_finished s \<and> receivedFinalSets s = pre @ (frm, H, S) # post
      \<and> (\<forall>fs \<in> set pre. \<not> spec_qualifies s fs) \<and> spec_qualifies s (frm, H, S) \<longrightarrow>
      checkDecision s = Inr (s\<lparr>icc_finished := True\<rparr>, [\<lparr>Coin = spec_coin s H\<rparr>]) \<and>
      spec_coin s H = (if \<exists>j \<in> set H. spec_v s j = 0 then 0 else 1)) \<and>
   (0 < icc_u s \<and> \<not> icc_finished s \<and> (\<forall>fs \<in> set (receivedFinalSets s). \<not> spec_qualifies s fs) \<longrightarrow>
      checkDecision s = Inr (s, [])) \<and>
   (icc_finished s \<longrightarrow> checkDecision s = Inr (s, [])) \<and>
   ((\<forall>f \<in> set fs. keeps_finished f) \<and> decision_run fs s = Inr (s', rs) \<longrightarrow>
      length rs \<le> 1 \<and> (icc_finished s \<longrightarrow> rs = []) \<and> (rs \<noteq> [] \<longrightarrow> icc_finished s'))"
proof (intro conjI impI)
  assume a: "0 < icc_u s \<and> \<not> icc_finished s \<and> receivedFinalSets s = pre @ (frm, H, S) # post
      \<and> (\<forall>fs \<in> set pre. \<not> spec_qualifies s fs) \<and> spec_qualifies s (frm, H, S)"
  then have "scan_final_sets s (pre @ (frm, H, S) # post)
     = Inr (s\<lparr>icc_finished := True\<rparr>, [\<lparr>Coin = spec_coin s H\<rparr>])"
    by (intro scan_final_sets_first) simp_all
  with a show "checkDecision s = Inr (s\<lparr>icc_finished := True\<rparr>, [\<lparr>Coin = spec_coin s H\<rparr>])"
    by (simp add: checkDecision_def)
  show "spec_coin s H = (if \<exists>j \<in> set H. spec_v s j = 0 then 0 else 1)"
    by (simp add: spec_coin_def)
next
  assume a: "0 < icc_u s \<and> \<not> icc_finished s \<and> (\<forall>fs \<in> set (receivedFinalSets s). \<not> spec_qualifies s fs)"
  then have "scan_final_sets s (receivedFinalSets s) = Inr (s, [])"
    by (intro scan_final_sets_none) simp_all
  with a show "checkDecision s = Inr (s, [])" by (simp add: checkDecision_def)
next
  assume "icc_finished s"
  then show "checkDecision s = Inr (s, [])" by (simp add: checkDecision_def)
next
  assume a: "(\<forall>f \<in> set fs. keeps_finished f) \<and> decision_run fs s = Inr (s', rs)"
  then have k: "\<forall>f \<in> set fs. keeps_finished f" and d: "decision_run fs s = Inr (s', rs)" by simp_all
  note r = decision_run_once[OF k d]
  from r show "length rs \<le> 1" by simp
  { assume "icc_finished s" with r show "rs = []" by simp }
  { assume "rs \<noteq> []" with r show "icc_finished s'" by simp }
qed

lemma icc_example_facts:
  "0 < icc_u icc_example" "\<not> icc_finished icc_example"
  "receivedFinalSets icc_example = [(4, [1, 2, 4], [1, 2, 4])] @ (2, [1, 2], [1, 2, 3]) # []"
  "\<not> spec_qualifies icc_example (4, [1, 2, 4], [1, 2, 4])"
  "spec_qualifies icc_example (2, [1, 2], [1, 2, 3])"
  "spec_v icc_example 1 = 1" "spec_v icc_example 2 = 0"
  by (simp_all add: icc_example_def spec_qualifies_def values_known_def spec_v_def)

theorem C5_icc_decision_witness:
  "0 < icc_u icc_example \<and> \<not> icc_finished icc_example \<and>
   receivedFinalSets icc_example = [(4, [1, 2, 4], [1, 2, 4])] @ (2, [1, 2], [1, 2, 3]) # [] \<and>
   \<not> spec_qualifies icc_example (4, [1, 2, 4], [1, 2, 4]) \<and>
   spec_qualifies icc_example (2, [1, 2], [1, 2, 3]) \<and>
   spec_v icc_example 1 = 1 \<and> spec_v icc_example 2 = 0 \<and>
   checkDecision icc_example = Inr (icc_example\<lparr>icc_finished := True\<rparr>, [\<lparr>Coin = 0\<rparr>]) \<and>
   checkDecision (icc_example\<lparr>icc_finished := True\<rparr>) = Inr (icc_example\<lparr>icc_finished := True\<rparr>, [])"
proof -
  note c5 = C5_icc_decision_coin
    [where s = icc_example and pre = "[(4, [1, 2, 4], [1, 2, 4])]" and frm = 2 and H = "[1, 2]"
       and S = "[1, 2, 3]" and post = "[]"]
  note c5' = C5_icc_decision_coin [where s = "icc_example\<lparr>icc_finished := True\<rparr>"]
  from c5 icc_example_facts
  have 1: "checkDecision icc_example
             = Inr (icc_example\<lparr>icc_finished := True\<rparr>, [\<lparr>Coin = spec_coin icc_example [1, 2]\<rparr>])"
    and 2: "spec_coin icc_example [1, 2] = (if \<exists>j \<in> set [1, 2]. spec_v icc_example j = 0 then 0 else 1)"
    by simp_all
  from 2 icc_example_facts have 3: "spec_coin icc_example [1, 2] = 0" by simp
  from c5' have 4: "checkDecision (icc_example\<lparr>icc_finished := True\<rparr>)
                      = Inr (icc_example\<lparr>icc_finished := True\<rparr>, [])" by simp
  from 1 3 4 icc_example_facts show ?thesis by simp
qed


section \<open>Interpolation at zero in the prime field\<close>

lemma egcd_bezout:
  "egcd a b = (g, x, y) \<Longrightarrow> a * x + b * y = g"
proof (induction a b arbitrary: g x y rule: egcd.induct)
  case (1 a b)
  show ?case
  proof (cases "b = 0")
    case True
    with "1.prems" show ?thesis by (simp add: egcd.simps[of a 0])
  next
    case False
    obtain g' x' y' where r: "egcd b (a mod b) = (g', x', y')" by (cases "egcd b (a mod b)") auto
    from "1.IH"[OF False r] have b: "b * x' + (a mod b) * y' = g'" .
    from "1.prems" False r have e: "g = g'" "x = y'" "y = x' - (a div b) * y'"
      by (auto simp: egcd.simps[of a b])
    have "b * (a div b) * y' + (a mod b) * y' = (b * (a div b) + a mod b) * y'"
      by (simp only: distrib_right)
    also have "\<dots> = a * y'" by (simp only: mult_div_mod_eq)
    finally have d: "a * y' = b * (a div b) * y' + (a mod b) * y'" by simp
    have "a * x + b * y = a * y' + b * (x' - (a div b) * y')" using e by simp
    also have "\<dots> = b * (a div b) * y' + (a mod b) * y' + b * (x' - (a div b) * y')"
      by (simp only: d)
    also have "\<dots> = b * x' + (a mod b) * y'" by (simp add: algebra_simps)
    finally show ?thesis using b e by simp
  qed
qed

lemma egcd_gcd:
  "0 \<le> a \<Longrightarrow> 0 \<le> b \<Longrightarrow> fst (egcd a b) = gcd a b"
proof (induction a b rule: egcd.induct)
  case (1 a b)
  show ?case
  proof (cases "b = 0")
    case True
    with "1.prems" show ?thesis by (simp add: egcd.simps[of a 0])
  next
    case False
    with "1.prems" have "0 \<le> a mod b" by simp
    from "1.IH"[OF False "1.prems"(2) this] have "fst (egcd b (a mod b)) = gcd b (a mod b)" .
    moreover have "gcd a b = gcd b (a mod b)" by (metis gcd.commute gcd_red_int)
    moreover obtain g' x' y' where "egcd b (a mod b) = (g', x', y')"
      by (cases "egcd b (a mod b)") auto
    ultimately show ?thesis using False
      by (simp add: egcd.simps[of a b])
  qed
qed

lemma prime_coprime:
  assumes "is_prime p" "\<not> p dvd a"
  shows "coprime a p"
proof -
  let ?g = "gcd a p"
  from assms(1) have p: "1 < p" and nd: "\<forall>d \<in> {2..<p}. \<not> d dvd p" by (simp_all add: is_prime_def)
  have g0: "0 \<le> ?g" by simp
  have gp: "?g dvd p" and ga: "?g dvd a" by simp_all
  from p have "?g \<noteq> 0" by auto
  with g0 have g1: "1 \<le> ?g" by linarith
  from gp p have gle: "?g \<le> p" by (intro zdvd_imp_le) simp_all
  have "?g = 1"
  proof (rule ccontr)
    assume "?g \<noteq> 1"
    with g1 have g2: "2 \<le> ?g" by linarith
    show False
    proof (cases "?g = p")
      case True
      with ga assms(2) show False by simp
    next
      case False
      with gle g2 have "?g \<in> {2..<p}" by simp
      with nd gp show False by blast
    qed
  qed
  then show ?thesis by (simp add: coprime_iff_gcd_eq_1)
qed

lemma prime_dvd_mult:
  assumes "is_prime p" "p dvd a * b"
  shows "p dvd a \<or> p dvd b"
proof (cases "p dvd a")
  case True
  then show ?thesis by simp
next
  case False
  from prime_coprime[OF assms(1) False] have "coprime p a" by (simp add: coprime_commute)
  with assms(2) show ?thesis by (simp add: coprime_dvd_mult_right_iff)
qed

lemma prime_dvd_prod_list:
  assumes "is_prime p"
  shows "p dvd prod_list as \<Longrightarrow> \<exists>a \<in> set as. p dvd a"
proof (induction as)
  case Nil
  with assms show ?case by (auto simp: is_prime_def)
next
  case (Cons a as)
  then have "p dvd a * prod_list as" by simp
  from prime_dvd_mult[OF assms this] Cons.IH show ?case by auto
qed

lemma ModInverse_coprime:
  assumes "1 < p" "0 \<le> d" "coprime d p"
  shows "\<exists>inv. ModInverse d p = Some inv \<and> (d * inv) mod p = 1"
proof -
  obtain g x y where e: "egcd d p = (g, x, y)" by (cases "egcd d p") auto
  from egcd_gcd[of d p] assms e have g: "g = 1" by (simp add: coprime_iff_gcd_eq_1)
  from egcd_bezout[OF e] g have b: "d * x + p * y = 1" by simp
  have "(d * (x mod p)) mod p = (d * x) mod p" by (simp add: mod_mult_right_eq)
  also have "\<dots> = (d * x + p * y) mod p" by simp
  also have "\<dots> = 1" using b assms(1) by simp
  finally have "(d * (x mod p)) mod p = 1" .
  moreover from assms e g have "ModInverse d p = Some (x mod p)"
    by (simp add: ModInverse_def Let_def)
  ultimately show ?thesis by blast
qed



lemma poly_value_padd: "poly_value (padd p q) x = poly_value p x + poly_value q x"
  by (induction p q rule: padd.induct) (simp_all add: algebra_simps)

lemma length_padd: "length (padd p q) = max (length p) (length q)"
  by (induction p q rule: padd.induct) simp_all

lemma poly_value_smult: "poly_value (smult c p) x = c * poly_value p x"
  by (induction p) (simp_all add: smult_def algebra_simps)

lemma length_smult: "length (smult c p) = length p"
  by (simp add: smult_def)

lemma poly_value_pmul_lin: "poly_value (pmul_lin a p) x = (x - a) * poly_value p x"
  by (simp add: pmul_lin_def poly_value_padd poly_value_smult algebra_simps)

lemma length_pmul_lin: "length (pmul_lin a p) = Suc (length p)"
  by (simp add: pmul_lin_def length_padd length_smult)

lemma poly_value_prod_lin: "poly_value (prod_lin as) x = (\<Prod>a\<leftarrow>as. x - a)"
  by (induction as) (simp_all add: poly_value_pmul_lin)

lemma length_prod_lin: "length (prod_lin as) = Suc (length as)"
  by (induction as) (simp_all add: length_pmul_lin)

lemma sdiv_value: "poly_value cs x = (x - r) * poly_value (sdiv r cs) x + poly_value cs r"
proof (induction r cs rule: sdiv.induct)
  case (1 r)
  then show ?case by simp
next
  case (2 r c)
  then show ?case by simp
next
  case (3 r c d ds)
  have "poly_value (c # d # ds) x = c + x * poly_value (d # ds) x" by simp
  also have "\<dots> = c + x * ((x - r) * poly_value (sdiv r (d # ds)) x + poly_value (d # ds) r)"
    using 3 by simp
  also have "\<dots> = (x - r) * (poly_value (d # ds) r + x * poly_value (sdiv r (d # ds)) x)
                   + (c + r * poly_value (d # ds) r)"
    by (simp add: algebra_simps)
  finally show ?case by simp
qed

lemma length_sdiv: "length (sdiv r cs) = length cs - 1"
  by (induction r cs rule: sdiv.induct) simp_all

text \<open>A polynomial of degree below \<open>k\<close> with \<open>k\<close> roots that are distinct modulo a prime vanishes modulo it.\<close>

lemma roots_vanish:
  assumes "is_prime p"
  shows "length cs \<le> length rs \<Longrightarrow> distinct (map (\<lambda>r. r mod p) rs) \<Longrightarrow>
         \<forall>r \<in> set rs. p dvd poly_value cs r \<Longrightarrow> p dvd poly_value cs x"
proof (induction rs arbitrary: cs x)
  case Nil
  then show ?case by simp
next
  case (Cons r rs)
  let ?q = "sdiv r cs"
  have lq: "length ?q \<le> length rs" using Cons.prems(1) by (simp add: length_sdiv)
  have dq: "distinct (map (\<lambda>r. r mod p) rs)" using Cons.prems(2) by simp
  have r0: "p dvd poly_value cs r" using Cons.prems(3) by simp
  have rq: "\<forall>r' \<in> set rs. p dvd poly_value ?q r'"
  proof
    fix r' assume m: "r' \<in> set rs"
    then have "p dvd poly_value cs r'" using Cons.prems(3) by simp
    then have "p dvd (r' - r) * poly_value ?q r' + poly_value cs r" using sdiv_value[of cs r' r] by simp
    with r0 have "p dvd (r' - r) * poly_value ?q r'" by (simp add: dvd_add_left_iff)
    from prime_dvd_mult[OF assms this] have "p dvd (r' - r) \<or> p dvd poly_value ?q r'" .
    moreover have "\<not> p dvd (r' - r)"
    proof
      assume "p dvd (r' - r)"
      then have "r' mod p = r mod p" by (simp add: mod_eq_dvd_iff)
      with m Cons.prems(2) show False by (auto simp: image_iff)
    qed
    ultimately show "p dvd poly_value ?q r'" by simp
  qed
  from Cons.IH[OF lq dq rq] have "p dvd poly_value ?q x" .
  with r0 show ?case using sdiv_value[of cs x r] by simp
qed

lemma filter_neq_upt:
  "j < k \<Longrightarrow> filter (\<lambda>m. m \<noteq> j) [0..<k] = [0..<j] @ [Suc j..<k]"
proof -
  assume j: "j < k"
  then have "[0..<k] = [0..<j] @ j # [Suc j..<k]"
    by (metis upt_add_eq_append upt_conv_Cons le_add_diff_inverse less_imp_le_nat zero_le)
  moreover have "filter (\<lambda>m. m \<noteq> j) [0..<j] = [0..<j]" by (rule filter_True) simp
  moreover have "filter (\<lambda>m. m \<noteq> j) [Suc j..<k] = [Suc j..<k]" by (rule filter_True) simp
  ultimately show ?thesis by simp
qed

lemma length_others: "j < length xs \<Longrightarrow> length (others j xs) = length xs - 1"
  by (simp add: others_def filter_neq_upt)

lemma others_member:
  "i < length xs \<Longrightarrow> i \<noteq> j \<Longrightarrow> xs ! i \<in> set (others j xs)"
  by (auto simp: others_def)

lemma others_nonmember:
  "distinct xs \<Longrightarrow> j < length xs \<Longrightarrow> xs ! j \<notin> set (others j xs)"
  by (auto simp: others_def nth_eq_iff_index_eq)

lemma others_subset: "set (others j xs) \<subseteq> set xs"
  by (auto simp: others_def)

lemma basis_zero:
  assumes "i < length xs" "i \<noteq> j"
  shows "(\<Prod>a\<leftarrow>others j xs. xs ! i - a) = 0"
proof -
  from others_member[OF assms] have "(0::int) \<in> set (map (\<lambda>a. xs ! i - a) (others j xs))"
    by (force simp: image_iff)
  then show ?thesis by (simp only: prod_list_zero_iff)
qed

lemma poly_value_lagrange_sum:
  "poly_value (lagrange_sum w xs js) x = (\<Sum>j\<leftarrow>js. w j * (\<Prod>a\<leftarrow>others j xs. x - a))"
  by (induction js) (simp_all add: poly_value_padd poly_value_smult poly_value_prod_lin)

lemma length_lagrange_sum:
  "\<forall>j \<in> set js. j < length xs \<Longrightarrow> length (lagrange_sum w xs js) \<le> length xs"
proof (induction js)
  case Nil
  then show ?case by simp
next
  case (Cons j js)
  then have "j < length xs" by simp
  then have "length (prod_lin (others j xs)) = length xs"
    by (simp add: length_prod_lin length_others)
  with Cons show ?case by (simp add: length_padd length_smult)
qed

lemma lagrange_sum_at_point:
  assumes "i < length xs"
  shows "poly_value (lagrange_sum w xs [0..<length xs]) (xs ! i)
           = w i * (\<Prod>a\<leftarrow>others i xs. xs ! i - a)"
proof -
  have "poly_value (lagrange_sum w xs [0..<length xs]) (xs ! i)
          = (\<Sum>j\<leftarrow>[0..<length xs]. w j * (\<Prod>a\<leftarrow>others j xs. xs ! i - a))"
    by (rule poly_value_lagrange_sum)
  also have "\<dots> = (\<Sum>j\<leftarrow>[0..<length xs]. if j = i then w i * (\<Prod>a\<leftarrow>others i xs. xs ! i - a) else 0)"
  proof (rule arg_cong[where f = sum_list], rule map_cong[OF refl])
    fix j assume "j \<in> set [0..<length xs]"
    show "w j * (\<Prod>a\<leftarrow>others j xs. xs ! i - a)
            = (if j = i then w i * (\<Prod>a\<leftarrow>others i xs. xs ! i - a) else 0)"
      using basis_zero[OF assms, of j] by auto
  qed
  also have "\<dots> = (\<Sum>j = 0..<length xs. if j = i then w i * (\<Prod>a\<leftarrow>others i xs. xs ! i - a) else 0)"
    by (simp add: interv_sum_list_conv_sum_set_nat)
  also have "\<dots> = w i * (\<Prod>a\<leftarrow>others i xs. xs ! i - a)"
    using assms by (simp add: sum.delta)
  finally show ?thesis .
qed

lemma num_den_fold_skip:
  "foldl (\<lambda>(num, den) m.
              if m = j then (num, den)
              else (big_Mod (num * (- (xs ! m))) p, big_Mod (den * (xs ! j - xs ! m)) p)) s ms
     = foldl (num_den_step p (xs ! j)) s (map (\<lambda>m. xs ! m) (filter (\<lambda>m. m \<noteq> j) ms))"
  by (induction ms arbitrary: s) (simp_all add: num_den_step_def split_beta)

lemma lagrange_num_den_others:
  "lagrange_num_den p xs j = foldl (num_den_step p (xs ! j)) (1, 1) (others j xs)"
  by (simp add: lagrange_num_den_def others_def num_den_fold_skip)

lemma num_den_fold_value:
  assumes "0 < p"
  shows "fst (foldl (num_den_step p xj) (n, d) as) mod p = (n * (\<Prod>a\<leftarrow>as. 0 - a)) mod p \<and>
         snd (foldl (num_den_step p xj) (n, d) as) mod p = (d * (\<Prod>a\<leftarrow>as. xj - a)) mod p \<and>
         (0 \<le> d \<longrightarrow> 0 \<le> snd (foldl (num_den_step p xj) (n, d) as))"
proof (induction as arbitrary: n d)
  case Nil
  then show ?case by simp
next
  case (Cons a as)
  let ?n = "(n * (- a)) mod p" and ?d = "(d * (xj - a)) mod p"
  have s: "foldl (num_den_step p xj) (n, d) (a # as) = foldl (num_den_step p xj) (?n, ?d) as"
    using assms by (simp add: num_den_step_def big_Mod_def)
  have "(?n * (\<Prod>a\<leftarrow>as. 0 - a)) mod p = (n * (- a) * (\<Prod>a\<leftarrow>as. 0 - a)) mod p"
    by (simp add: mod_mult_left_eq)
  moreover have "(?d * (\<Prod>a\<leftarrow>as. xj - a)) mod p = (d * (xj - a) * (\<Prod>a\<leftarrow>as. xj - a)) mod p"
    by (simp add: mod_mult_left_eq)
  moreover have "0 \<le> ?d" using assms by simp
  ultimately show ?case using Cons.IH[of ?n ?d] unfolding s
    by (simp add: mult.assoc)
qed

lemma den_not_divisible:
  assumes "is_prime p" "distinct xs" "\<forall>x \<in> set xs. 0 \<le> x \<and> x < p" "j < length xs"
  shows "\<not> p dvd (\<Prod>a\<leftarrow>others j xs. xs ! j - a)"
proof
  assume "p dvd (\<Prod>a\<leftarrow>others j xs. xs ! j - a)"
  from prime_dvd_prod_list[OF assms(1) this] obtain a where
    a: "a \<in> set (others j xs)" and d: "p dvd xs ! j - a" by auto
  from a others_subset have ax: "a \<in> set xs" by blast
  from assms(4) have jx: "xs ! j \<in> set xs" by simp
  from d have "(xs ! j) mod p = a mod p" by (simp add: mod_eq_dvd_iff)
  with assms(3) ax jx have "xs ! j = a" by simp
  with a others_nonmember[OF assms(2,4)] show False by simp
qed

lemma den_inverse_works:
  assumes "is_prime p" "distinct xs" "\<forall>x \<in> set xs. 0 \<le> x \<and> x < p" "j < length xs"
  shows "ModInverse (snd (lagrange_num_den p xs j)) p = Some (den_inverse p xs j) \<and>
         ((\<Prod>a\<leftarrow>others j xs. xs ! j - a) * den_inverse p xs j) mod p = 1"
proof -
  from assms(1) have p: "1 < p" by (simp add: is_prime_def)
  let ?den = "snd (lagrange_num_den p xs j)" and ?D = "(\<Prod>a\<leftarrow>others j xs. xs ! j - a)"
  from num_den_fold_value[of p "xs ! j" 1 1 "others j xs"] p
  have dm: "?den mod p = ?D mod p" and d0: "0 \<le> ?den"
    by (simp_all add: lagrange_num_den_others)
  from den_not_divisible[OF assms] have "\<not> p dvd ?D" .
  with dm have "\<not> p dvd ?den" by (simp add: dvd_eq_mod_eq_0)
  from prime_coprime[OF assms(1) this] have "coprime ?den p" .
  from ModInverse_coprime[OF p d0 this] obtain inv where
    i: "ModInverse ?den p = Some inv" and m: "(?den * inv) mod p = 1" by blast
  from i have e: "den_inverse p xs j = inv" by (simp add: den_inverse_def)
  have "(?D * inv) mod p = ((?D mod p) * inv) mod p" by (simp add: mod_mult_left_eq)
  also have "\<dots> = ((?den mod p) * inv) mod p" by (simp only: dm)
  also have "\<dots> = 1" using m by (simp add: mod_mult_left_eq)
  finally show ?thesis using i e by simp
qed

lemma lagrange_term_value:
  assumes "is_prime p" "distinct xs" "\<forall>x \<in> set xs. 0 \<le> x \<and> x < p" "j < length xs"
    "length ys = length xs"
  shows "\<exists>T. lagrange_term p xs ys j = Inr T \<and> 0 \<le> T \<and> T < p \<and>
             T mod p = (ys ! j * den_inverse p xs j * (\<Prod>a\<leftarrow>others j xs. 0 - a)) mod p"
proof -
  from assms(1) have p: "1 < p" by (simp add: is_prime_def)
  let ?num = "fst (lagrange_num_den p xs j)" and ?den = "snd (lagrange_num_den p xs j)"
  let ?N = "(\<Prod>a\<leftarrow>others j xs. 0 - a)" and ?inv = "den_inverse p xs j"
  from num_den_fold_value[of p "xs ! j" 1 1 "others j xs"] p
  have nm: "?num mod p = ?N mod p" by (simp add: lagrange_num_den_others)
  from den_inverse_works[OF assms(1-4)] have i: "ModInverse ?den p = Some ?inv" by simp
  let ?T = "((ys ! j * ?num) mod p * ?inv) mod p"
  have t: "lagrange_term p xs ys j = Inr ?T"
    using assms(4,5) i p by (simp add: lagrange_term_def big_Mod_def split_beta Let_def)
  have "?T mod p = (ys ! j * ?num * ?inv) mod p" by (simp add: mod_mult_left_eq)
  also have "\<dots> = (ys ! j * ?inv * ?num) mod p" by (simp add: mult.commute mult.left_commute)
  also have "\<dots> = (ys ! j * ?inv * (?num mod p)) mod p" by (simp add: mod_mult_right_eq)
  also have "\<dots> = (ys ! j * ?inv * (?N mod p)) mod p" by (simp only: nm)
  also have "\<dots> = (ys ! j * ?inv * ?N) mod p" by (simp add: mod_mult_right_eq)
  finally have "?T mod p = (ys ! j * ?inv * ?N) mod p" .
  moreover have "0 \<le> ?T" "?T < p" using p by simp_all
  ultimately show ?thesis using t by blast
qed

lemma interpolate_loop_value:
  assumes "is_prime p" "distinct xs" "\<forall>x \<in> set xs. 0 \<le> x \<and> x < p" "length ys = length xs"
  shows "\<forall>j \<in> set js. j < length xs \<Longrightarrow>
         \<exists>r'. interpolate_loop p xs ys js r = Inr r' \<and>
              r' mod p = (r + (\<Sum>j\<leftarrow>js. ys ! j * den_inverse p xs j * (\<Prod>a\<leftarrow>others j xs. 0 - a))) mod p \<and>
              (js \<noteq> [] \<longrightarrow> 0 \<le> r' \<and> r' < p)"
proof (induction js arbitrary: r)
  case Nil
  then show ?case by simp
next
  case (Cons j js)
  from assms(1) have p: "1 < p" by (simp add: is_prime_def)
  let ?W = "\<lambda>j. ys ! j * den_inverse p xs j * (\<Prod>a\<leftarrow>others j xs. 0 - a)"
  from Cons.prems have j: "j < length xs" and js: "\<forall>j \<in> set js. j < length xs" by simp_all
  from lagrange_term_value[OF assms(1-3) j assms(4)] obtain T where
    t: "lagrange_term p xs ys j = Inr T" and tm: "T mod p = ?W j mod p" by blast
  let ?r1 = "(r + T) mod p"
  from Cons.IH[OF js, of ?r1] obtain r' where
    l: "interpolate_loop p xs ys js ?r1 = Inr r'" and
    m: "r' mod p = (?r1 + (\<Sum>j\<leftarrow>js. ?W j)) mod p" and
    b: "js \<noteq> [] \<longrightarrow> 0 \<le> r' \<and> r' < p" by blast
  have s: "interpolate_loop p xs ys (j # js) r = Inr r'"
    using t l p by (simp add: big_Mod_def)
  let ?S = "(\<Sum>j\<leftarrow>js. ?W j)"
  have "(?r1 + ?S) mod p = (r + T + ?S) mod p"
    by (simp only: mod_add_left_eq)
  also have "\<dots> = (T + (r + ?S)) mod p"
    by (simp only: add.assoc add.left_commute[of r T])
  also have "\<dots> = (T mod p + (r + ?S)) mod p"
    by (simp only: mod_add_left_eq)
  also have "\<dots> = (?W j mod p + (r + ?S)) mod p" by (simp only: tm)
  also have "\<dots> = (?W j + (r + ?S)) mod p"
    by (simp only: mod_add_left_eq)
  also have "\<dots> = (r + (?W j + ?S)) mod p"
    by (simp only: add.left_commute[of "?W j" r])
  finally have "(?r1 + ?S) mod p = (r + (?W j + ?S)) mod p" .
  with m have m': "r' mod p = (r + (\<Sum>j\<leftarrow>j # js. ?W j)) mod p" by simp
  have "0 \<le> r' \<and> r' < p"
  proof (cases "js = []")
    case True
    with l have "r' = ?r1" by simp
    with p show ?thesis by simp
  next
    case False
    with b show ?thesis by simp
  qed
  with s m' show ?case by blast
qed

lemma interpolation_agrees_at_zero:
  assumes "is_prime p" "distinct xs" "\<forall>x \<in> set xs. 0 \<le> x \<and> x < p" "length cs \<le> length xs"
    "ys = map (\<lambda>x. poly_value cs x mod p) xs"
  shows "poly_value (lagrange_sum (\<lambda>j. ys ! j * den_inverse p xs j) xs [0..<length xs]) 0 mod p
           = poly_value cs 0 mod p"
proof -
  from assms(1) have p: "1 < p" by (simp add: is_prime_def)
  let ?w = "\<lambda>j. ys ! j * den_inverse p xs j"
  let ?L = "lagrange_sum ?w xs [0..<length xs]"
  let ?D = "padd cs (smult (- 1) ?L)"
  have vD: "\<And>x. poly_value ?D x = poly_value cs x - poly_value ?L x"
    by (simp add: poly_value_padd poly_value_smult)
  have lL: "length ?L \<le> length xs" by (rule length_lagrange_sum) simp
  have lD: "length ?D \<le> length xs" using assms(4) lL by (simp add: length_padd length_smult)
  have "map (\<lambda>r. r mod p) xs = xs"
    using assms(3) by (intro map_idI) simp
  with assms(2) have dm: "distinct (map (\<lambda>r. r mod p) xs)" by simp
  have roots: "\<forall>r \<in> set xs. p dvd poly_value ?D r"
  proof
    fix r assume "r \<in> set xs"
    then obtain i where i: "i < length xs" and r: "r = xs ! i" by (auto simp: in_set_conv_nth)
    let ?P = "(\<Prod>a\<leftarrow>others i xs. xs ! i - a)"
    from den_inverse_works[OF assms(1-3) i] have inv: "(?P * den_inverse p xs i) mod p = 1" by simp
    from i assms(5) have y: "ys ! i = poly_value cs (xs ! i) mod p" by simp
    have "poly_value ?L (xs ! i) = ys ! i * den_inverse p xs i * ?P"
      by (rule lagrange_sum_at_point[OF i])
    also have "\<dots> = ys ! i * (?P * den_inverse p xs i)" by (simp add: mult.commute mult.left_commute)
    finally have "poly_value ?L (xs ! i) mod p = (ys ! i * ((?P * den_inverse p xs i) mod p)) mod p"
      by (simp only: mod_mult_right_eq)
    also have "\<dots> = ys ! i mod p" by (simp only: inv mult_1_right)
    also have "\<dots> = poly_value cs (xs ! i) mod p" by (simp only: y mod_mod_trivial)
    finally have "poly_value cs (xs ! i) mod p = poly_value ?L (xs ! i) mod p" by simp
    then have "p dvd poly_value cs (xs ! i) - poly_value ?L (xs ! i)" by (simp add: mod_eq_dvd_iff)
    with r show "p dvd poly_value ?D r" by (simp only: vD)
  qed
  from roots_vanish[OF assms(1) lD dm roots] have "p dvd poly_value ?D 0" .
  then have "p dvd poly_value cs 0 - poly_value ?L 0" by (simp only: vD)
  then have "poly_value cs 0 mod p = poly_value ?L 0 mod p" by (simp add: mod_eq_dvd_iff)
  then show ?thesis by simp
qed

lemma InterpolateAtZero_value:
  assumes "is_prime p" "xs \<noteq> []" "distinct xs" "\<forall>x \<in> set xs. 0 \<le> x \<and> x < p"
    "length cs \<le> length xs" "ys = map (\<lambda>x. poly_value cs x mod p) xs"
  shows "InterpolateAtZero p xs ys = Inr (poly_value cs 0 mod p)"
proof -
  from assms(1) have p: "1 < p" by (simp add: is_prime_def)
  from assms(6) have ly: "length ys = length xs" by simp
  let ?w = "\<lambda>j. ys ! j * den_inverse p xs j"
  let ?L = "lagrange_sum ?w xs [0..<length xs]"
  have ne: "[0..<length xs] \<noteq> []" using assms(2) by simp
  from interpolate_loop_value[OF assms(1,3,4) ly, of "[0..<length xs]" 0] ne obtain r' where
    l: "interpolate_loop p xs ys [0..<length xs] 0 = Inr r'" and
    m: "r' mod p = (0 + (\<Sum>j\<leftarrow>[0..<length xs]. ?w j * (\<Prod>a\<leftarrow>others j xs. 0 - a))) mod p" and
    b: "0 \<le> r' \<and> r' < p" by auto
  have "poly_value ?L 0 = (\<Sum>j\<leftarrow>[0..<length xs]. ?w j * (\<Prod>a\<leftarrow>others j xs. 0 - a))"
    by (rule poly_value_lagrange_sum)
  with m have "r' mod p = poly_value ?L 0 mod p" by simp
  also have "\<dots> = poly_value cs 0 mod p"
    by (rule interpolation_agrees_at_zero[OF assms(1,3,4,5,6)])
  finally have "r' mod p = poly_value cs 0 mod p" .
  moreover from b have "r' mod p = r'" by simp
  ultimately have "r' = poly_value cs 0 mod p" by simp
  with l b show ?thesis by (simp add: InterpolateAtZero_def)
qed

lemma Evaluate_is_poly_value:
  assumes "0 < p"
  shows "Evaluate p \<lparr>Coeffs = cs\<rparr> x = poly_value cs x mod p"
proof -
  have f: "foldr (\<lambda>c result. (result * x + c) mod p) cs 0 = poly_value cs x mod p"
  proof (induction cs)
    case Nil
    then show ?case by simp
  next
    case (Cons c cs)
    have "foldr (\<lambda>c result. (result * x + c) mod p) (c # cs) 0
            = ((poly_value cs x mod p) * x + c) mod p" using Cons by simp
    also have "\<dots> = (poly_value cs x * x + c) mod p" by (metis mod_add_left_eq mod_mult_left_eq)
    also have "\<dots> = poly_value (c # cs) x mod p" by (simp add: algebra_simps)
    finally show ?case .
  qed
  show ?thesis using assms f by (simp add: Evaluate_def foldl_conv_foldr big_Mod_def)
qed

text \<open>
  Claim C9. For a prime modulus \<open>p\<close>, every non-empty list of pairwise distinct points in
  \<open>[0, p)\<close> and every polynomial \<open>P\<close> with integer coefficients \<open>cs\<close> of degree below the
  number of points: from the values \<open>P(x\<^sub>i) mod p\<close> (which is what \<^verbatim>\<open>Evaluate\<close> computes)
  \<^verbatim>\<open>InterpolateAtZero\<close> returns, without panic, \<open>P(0) mod p\<close>, a value in \<open>[0, p)\<close>. The
  modulus is an argument of the model; the source fixes it to \<^const>\<open>Prime\<close>.
\<close>

theorem C9_interpolate_at_zero:
  "is_prime p \<and> xs \<noteq> [] \<and> distinct xs \<and> (\<forall>x \<in> set xs. 0 \<le> x \<and> x < p)
     \<and> length cs \<le> length xs \<longrightarrow>
   InterpolateAtZero p xs (map (\<lambda>x. poly_value cs x mod p) xs) = Inr (poly_value cs 0 mod p) \<and>
   map (\<lambda>x. Evaluate p \<lparr>Coeffs = cs\<rparr> x) xs = map (\<lambda>x. poly_value cs x mod p) xs \<and>
   0 \<le> poly_value cs 0 mod p \<and> poly_value cs 0 mod p < p"
proof
  assume a: "is_prime p \<and> xs \<noteq> [] \<and> distinct xs \<and> (\<forall>x \<in> set xs. 0 \<le> x \<and> x < p)
     \<and> length cs \<le> length xs"
  then have p: "1 < p" by (simp add: is_prime_def)
  from a have "InterpolateAtZero p xs (map (\<lambda>x. poly_value cs x mod p) xs) = Inr (poly_value cs 0 mod p)"
    by (intro InterpolateAtZero_value) simp_all
  moreover have "map (\<lambda>x. Evaluate p \<lparr>Coeffs = cs\<rparr> x) xs = map (\<lambda>x. poly_value cs x mod p) xs"
    using p by (simp add: Evaluate_is_poly_value)
  moreover have "0 \<le> poly_value cs 0 mod p \<and> poly_value cs 0 mod p < p" using p by simp
  ultimately show "InterpolateAtZero p xs (map (\<lambda>x. poly_value cs x mod p) xs) = Inr (poly_value cs 0 mod p) \<and>
   map (\<lambda>x. Evaluate p \<lparr>Coeffs = cs\<rparr> x) xs = map (\<lambda>x. poly_value cs x mod p) xs \<and>
   0 \<le> poly_value cs 0 mod p \<and> poly_value cs 0 mod p < p" by blast
qed

lemma InterpolateAtZero_Prime_example:
  "InterpolateAtZero Prime [1, 2, 3] [9, 15, 23] = Inr 5"
  by code_simp

theorem C9_interpolate_witness:
  "is_prime 7 \<and> [1, 2, 3] \<noteq> ([] :: int list) \<and> distinct [1, 2, 3 :: int] \<and>
   length [5, 3, 1 :: int] \<le> length [1, 2, 3 :: int] \<and>
   map (\<lambda>x. poly_value [5, 3, 1] x mod 7) [1, 2, 3] = [2, 1, 2] \<and>
   InterpolateAtZero 7 [1, 2, 3] [2, 1, 2] = Inr 5 \<and>
   poly_value [5, 3, 1] 0 mod 7 = 5"
proof -
  have pr: "is_prime 7" by code_simp
  have r: "\<forall>x \<in> set [1, 2, 3 :: int]. 0 \<le> x \<and> x < 7" by simp
  have v: "map (\<lambda>x. poly_value [5, 3, 1] x mod 7) [1, 2, 3] = [2, 1, 2]" by simp
  from C9_interpolate_at_zero [of 7 "[1, 2, 3]" "[5, 3, 1]"] pr r
  have "InterpolateAtZero 7 [1, 2, 3] (map (\<lambda>x. poly_value [5, 3, 1] x mod 7) [1, 2, 3])
          = Inr (poly_value [5, 3, 1] 0 mod 7)" by simp
  with v have "InterpolateAtZero 7 [1, 2, 3] [2, 1, 2] = Inr 5" by simp
  with pr v show ?thesis by simp
qed



section \<open>Replay of a handled message\<close>

subsection \<open>Vote and the COMPLETE gadget\<close>

lemma AList_update_again: "AList.update k v (AList.update k v al) = AList.update k v al"
  by (induction al) auto

lemma vote_phase1_keeps:
  "vote_phase1 me n t st = (st1, ps) \<Longrightarrow>
   receivedInputs st1 = receivedInputs st \<and> receivedVote1 st1 = receivedVote1 st \<and>
   receivedRevote st1 = receivedRevote st \<and> sentRevote st1 = sentRevote st \<and>
   vr_finished st1 = vr_finished st \<and> vr_round st1 = vr_round st"
  by (auto simp: vote_phase1_def Let_def split: if_splits)

lemma vote_phase1_idle:
  "vote_phase1 me n t st = (st1, ps) \<Longrightarrow> \<not> sentVote1 st1 \<Longrightarrow>
   \<not> int (length (receivedInputs st)) \<ge> n - t"
  by (auto simp: vote_phase1_def Let_def split: if_splits)

lemma vote_phase2_keeps:
  "vote_phase2 me n t st = (st1, ps) \<Longrightarrow>
   receivedInputs st1 = receivedInputs st \<and> receivedVote1 st1 = receivedVote1 st \<and>
   receivedRevote st1 = receivedRevote st \<and> (sentVote1 st1 \<longleftrightarrow> sentVote1 st) \<and>
   vr_finished st1 = vr_finished st \<and> vr_round st1 = vr_round st"
  by (auto simp: vote_phase2_def Let_def split: if_splits)

lemma vote_phase2_idle:
  "vote_phase2 me n t st = (st1, ps) \<Longrightarrow> \<not> sentRevote st1 \<Longrightarrow>
   \<not> (sentVote1 st \<and> int (length (validVote1s st)) \<ge> n - t)"
  by (auto simp: vote_phase2_def Let_def split: if_splits)

lemma vote_phase3_unfinished:
  assumes "vote_phase3 n t st = (st1, rs)" "\<not> vr_finished st1"
  shows "st1 = st \<and> rs = [] \<and> \<not> (sentRevote st \<and> int (length (validRevotes st)) \<ge> n - t)"
proof (cases "sentRevote st \<and> int (length (validRevotes st)) \<ge> n - t")
  case True
  with assms(1) have "st1 = (st\<lparr>vr_myC := sort (validRevotes st)\<rparr>)\<lparr>vr_finished := True\<rparr>"
    by (simp add: vote_phase3_def vote_finish_def Let_def)
  with assms(2) show ?thesis by simp
next
  case False
  with assms(1) have "st1 = st" "rs = []" by (auto simp: vote_phase3_def)
  with False show ?thesis by simp
qed

lemma vote_phase3_keeps:
  assumes "vote_phase3 n t st = (st1, rs)"
  shows "receivedInputs st1 = receivedInputs st \<and> receivedVote1 st1 = receivedVote1 st \<and>
         receivedRevote st1 = receivedRevote st"
proof (cases "sentRevote st \<and> int (length (validRevotes st)) \<ge> n - t")
  case True
  with assms(1) have "st1 = (st\<lparr>vr_myC := sort (validRevotes st)\<rparr>)\<lparr>vr_finished := True\<rparr>"
    by (simp add: vote_phase3_def vote_finish_def Let_def)
  then show ?thesis by simp
next
  case False
  with assms(1) have "st1 = st" by (auto simp: vote_phase3_def)
  then show ?thesis by simp
qed

lemma Vote_checkProgress_tables:
  assumes "Vote_checkProgress me n t st = (st', ps, rs)"
  shows "receivedInputs st' = receivedInputs st \<and> receivedVote1 st' = receivedVote1 st \<and>
         receivedRevote st' = receivedRevote st"
proof -
  obtain st1 ps1 where 1: "vote_phase1 me n t st = (st1, ps1)" by (cases "vote_phase1 me n t st") auto
  obtain st2 ps2 where 2: "vote_phase2 me n t st1 = (st2, ps2)" by (cases "vote_phase2 me n t st1") auto
  obtain st3 rs3 where 3: "vote_phase3 n t st2 = (st3, rs3)" by (cases "vote_phase3 n t st2") auto
  from assms 1 2 3 have e: "st' = st3" by (simp add: Vote_checkProgress_def)
  from vote_phase1_keeps[OF 1] vote_phase2_keeps[OF 2] vote_phase3_keeps[OF 3] e
  show ?thesis by simp
qed

lemma Vote_checkProgress_again:
  assumes "Vote_checkProgress me n t st = (st', ps, rs)" "\<not> vr_finished st'"
  shows "Vote_checkProgress me n t st' = (st', [], [])"
proof -
  obtain st1 ps1 where 1: "vote_phase1 me n t st = (st1, ps1)" by (cases "vote_phase1 me n t st") auto
  obtain st2 ps2 where 2: "vote_phase2 me n t st1 = (st2, ps2)" by (cases "vote_phase2 me n t st1") auto
  obtain st3 rs3 where 3: "vote_phase3 n t st2 = (st3, rs3)" by (cases "vote_phase3 n t st2") auto
  from assms 1 2 3 have e: "st' = st3" by (simp add: Vote_checkProgress_def)
  note k1 = vote_phase1_keeps[OF 1] and k2 = vote_phase2_keeps[OF 2]
  from vote_phase3_unfinished[OF 3] assms(2) e
  have s32: "st3 = st2" and n3: "\<not> (sentRevote st2 \<and> int (length (validRevotes st2)) \<ge> n - t)"
    by simp_all
  have p1: "vote_phase1 me n t st2 = (st2, [])"
  proof (cases "sentVote1 st2")
    case True
    then show ?thesis by (simp add: vote_phase1_def)
  next
    case False
    with k2 have "\<not> sentVote1 st1" by simp
    from vote_phase1_idle[OF 1 this] have "\<not> int (length (receivedInputs st)) \<ge> n - t" .
    with k1 k2 have "\<not> int (length (receivedInputs st2)) \<ge> n - t" by simp
    then show ?thesis by (simp add: vote_phase1_def)
  qed
  have v: "validVote1s st2 = validVote1s st1" by (rule valid_cong) (simp_all add: k2)
  have p2: "vote_phase2 me n t st2 = (st2, [])"
  proof (cases "sentRevote st2")
    case True
    then show ?thesis by (simp add: vote_phase2_def)
  next
    case False
    from vote_phase2_idle[OF 2 False]
    have "\<not> (sentVote1 st1 \<and> int (length (validVote1s st1)) \<ge> n - t)" .
    with k2 v have "\<not> (sentVote1 st2 \<and> int (length (validVote1s st2)) \<ge> n - t)" by simp
    then show ?thesis by (auto simp: vote_phase2_def)
  qed
  have p3: "vote_phase3 n t st2 = (st2, [])"
    using n3 by (auto simp: vote_phase3_def)
  from p1 p2 p3 e s32 show ?thesis by (simp add: Vote_checkProgress_def)
qed

lemma Vote_processDeliveredPayload_replay:
  assumes "Vote_processDeliveredPayload me n t p st = (st', ps, rs)"
  shows "Vote_processDeliveredPayload me n t p st' = (st', [], [])"
proof (cases "vr_finished st")
  case True
  with assms show ?thesis by (simp add: Vote_processDeliveredPayload_def)
next
  case False
  define u where "u = (case vp_Type p of
                Vote_Input \<Rightarrow> st\<lparr>receivedInputs := AList.update (vp_Sender p) (vp_Bit p) (receivedInputs st)\<rparr>
              | Vote_Vote1 \<Rightarrow> st\<lparr>receivedVote1 :=
                                  AList.update (vp_Sender p) (vp_Set p, vp_Bit p) (receivedVote1 st)\<rparr>
              | Vote_Revote \<Rightarrow> st\<lparr>receivedRevote :=
                                   AList.update (vp_Sender p) (vp_Set p, vp_Bit p) (receivedRevote st)\<rparr>)"
  from assms False have c: "Vote_checkProgress me n t u = (st', ps, rs)"
    by (simp add: Vote_processDeliveredPayload_def u_def)
  show ?thesis
  proof (cases "vr_finished st'")
    case True
    then show ?thesis by (simp add: Vote_processDeliveredPayload_def)
  next
    case nf: False
    note tb = Vote_checkProgress_tables[OF c]
    have u': "(case vp_Type p of
                Vote_Input \<Rightarrow> st'\<lparr>receivedInputs := AList.update (vp_Sender p) (vp_Bit p) (receivedInputs st')\<rparr>
              | Vote_Vote1 \<Rightarrow> st'\<lparr>receivedVote1 :=
                                  AList.update (vp_Sender p) (vp_Set p, vp_Bit p) (receivedVote1 st')\<rparr>
              | Vote_Revote \<Rightarrow> st'\<lparr>receivedRevote :=
                                   AList.update (vp_Sender p) (vp_Set p, vp_Bit p) (receivedRevote st')\<rparr>) = st'"
    proof (cases "vp_Type p")
      case Vote_Input
      with tb have "receivedInputs st' = AList.update (vp_Sender p) (vp_Bit p) (receivedInputs st)"
        by (simp add: u_def)
      then have "AList.update (vp_Sender p) (vp_Bit p) (receivedInputs st') = receivedInputs st'"
        by (simp add: AList_update_again)
      with Vote_Input show ?thesis by simp
    next
      case Vote_Vote1
      with tb have "receivedVote1 st' = AList.update (vp_Sender p) (vp_Set p, vp_Bit p) (receivedVote1 st)"
        by (simp add: u_def)
      then have "AList.update (vp_Sender p) (vp_Set p, vp_Bit p) (receivedVote1 st') = receivedVote1 st'"
        by (simp add: AList_update_again)
      with Vote_Vote1 show ?thesis by simp
    next
      case Vote_Revote
      with tb have "receivedRevote st' = AList.update (vp_Sender p) (vp_Set p, vp_Bit p) (receivedRevote st)"
        by (simp add: u_def)
      then have "AList.update (vp_Sender p) (vp_Set p, vp_Bit p) (receivedRevote st') = receivedRevote st'"
        by (simp add: AList_update_again)
      with Vote_Revote show ?thesis by simp
    qed
    from Vote_checkProgress_again[OF c nf] nf show ?thesis
      by (simp add: Vote_processDeliveredPayload_def u')
  qed
qed

lemma acast_latched_noop:
  "acast_latched (am_UUID msg) a \<Longrightarrow> Acast_OnMessage msg a = (a, [], [])"
  by (auto simp: acast_latched_def split: option.splits intro: Acast_OnMessage_delivered_noop)

lemma acast_latched_after:
  assumes "Acast_OnMessage msg a = (a', bs, rs)" "rs \<noteq> []"
  shows "acast_latched (am_UUID msg) a'"
proof -
  obtain inst' where i: "Acast_instOnMessage (as_id a) (as_n a) (as_t a) msg (Acast_getInstance a (am_UUID msg)) = (inst', bs, rs)"
    and a': "a' = a\<lparr>as_instances := (as_instances a)(am_UUID msg \<mapsto> inst')\<rparr>"
    using assms(1) by (auto simp: Acast_OnMessage_def split: prod.splits)
  from Acast_inst_result_sets_delivered[OF i assms(2)] a' show ?thesis
    by (simp add: acast_latched_def)
qed

lemma acast_latched_mono:
  assumes "Acast_OnMessage msg a = (a', bs, rs)" "acast_latched uuid a"
  shows "acast_latched uuid a'"
proof (cases "am_UUID msg = uuid")
  case True
  with assms(2) have "Acast_OnMessage msg a = (a, [], [])" by (simp add: acast_latched_noop)
  with assms show ?thesis by simp
next
  case False
  from Acast_OnMessage_other_uuid[OF assms(1) False] assms(2) show ?thesis
    by (simp add: acast_latched_def)
qed

lemma Vote_startACast_keeps:
  assumes "Vote_startACast uuid p s = (s', bs)"
  shows "vs_id s' = vs_id s \<and> vs_n s' = vs_n s \<and> vs_t s' = vs_t s \<and> vs_rounds s' = vs_rounds s \<and>
         (acast_latched u (vs_acast s) \<longrightarrow> acast_latched u (vs_acast s'))"
proof -
  let ?msg = "NewACastMessage (uuid (VotePayload_String p)) (VotePayload_String p) (vs_id s)"
  obtain a' abcs vals where a: "Acast_OnMessage ?msg (vs_acast s) = (a', abcs, vals)"
    by (cases "Acast_OnMessage ?msg (vs_acast s)") auto
  with assms have e: "s' = s\<lparr>vs_acast := a'\<rparr>" by (simp add: Vote_startACast_def Let_def)
  from acast_latched_mono[OF a] e show ?thesis by simp
qed

lemma Vote_startACasts_keeps:
  "Vote_startACasts uuid ps s = (s', bs) \<Longrightarrow>
   vs_id s' = vs_id s \<and> vs_n s' = vs_n s \<and> vs_t s' = vs_t s \<and> vs_rounds s' = vs_rounds s \<and>
   (acast_latched u (vs_acast s) \<longrightarrow> acast_latched u (vs_acast s'))"
proof (induction ps arbitrary: s s' bs)
  case Nil
  then show ?case by simp
next
  case (Cons p ps)
  obtain s1 bs1 where 1: "Vote_startACast uuid p s = (s1, bs1)" by (cases "Vote_startACast uuid p s") auto
  obtain s2 bs2 where 2: "Vote_startACasts uuid ps s1 = (s2, bs2)" by (cases "Vote_startACasts uuid ps s1") auto
  from Cons.prems 1 2 have e: "s' = s2" by simp
  from Vote_startACast_keeps[OF 1, of u] Cons.IH[OF 2] e show ?case by simp
qed

lemma VoteService_processDeliveredPayload_replay:
  assumes "VoteService_processDeliveredPayload uuid p s = (s1, bs, rs)"
  shows "VoteService_processDeliveredPayload uuid' p s1 = (s1, [], [])"
proof -
  let ?r = "vp_Round p"
  obtain st' ps rs0 where r: "Vote_processDeliveredPayload (vs_id s) (vs_n s) (vs_t s) p (Vote_getRoundState s ?r) = (st', ps, rs0)"
    by (cases "Vote_processDeliveredPayload (vs_id s) (vs_n s) (vs_t s) p (Vote_getRoundState s ?r)") auto
  obtain s' bs' where a: "Vote_startACasts uuid ps (s\<lparr>vs_rounds := (vs_rounds s)(?r \<mapsto> st')\<rparr>) = (s', bs')"
    by (cases "Vote_startACasts uuid ps (s\<lparr>vs_rounds := (vs_rounds s)(?r \<mapsto> st')\<rparr>)") auto
  from assms r a have e: "s1 = s'" by (simp add: VoteService_processDeliveredPayload_def)
  from Vote_startACasts_keeps[OF a] e
  have k: "vs_id s1 = vs_id s" "vs_n s1 = vs_n s" "vs_t s1 = vs_t s"
    "vs_rounds s1 = (vs_rounds s)(?r \<mapsto> st')" by simp_all
  then have g: "Vote_getRoundState s1 ?r = st'" by (simp add: Vote_getRoundState_def)
  have u: "s1\<lparr>vs_rounds := (vs_rounds s1)(?r \<mapsto> st')\<rparr> = s1" by (simp add: k)
  from Vote_processDeliveredPayload_replay[OF r] k g
  have "Vote_processDeliveredPayload (vs_id s1) (vs_n s1) (vs_t s1) p (Vote_getRoundState s1 ?r) = (st', [], [])"
    by simp
  then show ?thesis by (simp add: VoteService_processDeliveredPayload_def u)
qed

lemma VoteService_processDeliveredPayload_latched:
  assumes "VoteService_processDeliveredPayload uuid p s = (s1, bs, rs)" "acast_latched u (vs_acast s)"
  shows "acast_latched u (vs_acast s1)"
proof -
  let ?r = "vp_Round p"
  obtain st' ps rs0 where r: "Vote_processDeliveredPayload (vs_id s) (vs_n s) (vs_t s) p (Vote_getRoundState s ?r) = (st', ps, rs0)"
    by (cases "Vote_processDeliveredPayload (vs_id s) (vs_n s) (vs_t s) p (Vote_getRoundState s ?r)") auto
  obtain s' bs' where a: "Vote_startACasts uuid ps (s\<lparr>vs_rounds := (vs_rounds s)(?r \<mapsto> st')\<rparr>) = (s', bs')"
    by (cases "Vote_startACasts uuid ps (s\<lparr>vs_rounds := (vs_rounds s)(?r \<mapsto> st')\<rparr>)") auto
  from assms r a have e: "s1 = s'" by (simp add: VoteService_processDeliveredPayload_def)
  from Vote_startACasts_keeps[OF a, of u] e assms(2) show ?thesis by simp
qed

lemma Vote_SendResult_replay:
  "Vote_SendResult uuid res s = (s1, bs, rs) \<Longrightarrow> Vote_SendResult uuid' res s1 = (s1, [], [])"
  by (cases res) (auto simp: Vote_SendResult_def intro: VoteService_processDeliveredPayload_replay)

lemma Vote_deliver_values_latched:
  "Vote_deliver_values uuid vals s = (s1, bs, rs) \<Longrightarrow> acast_latched u (vs_acast s) \<Longrightarrow>
   acast_latched u (vs_acast s1)"
proof (induction vals arbitrary: s s1 bs rs)
  case Nil
  then show ?case by simp
next
  case (Cons v vals)
  obtain sa bsa rsa where 1: "Vote_SendResult uuid v s = (sa, bsa, rsa)"
    by (cases "Vote_SendResult uuid v s") auto
  obtain sb bsb rsb where 2: "Vote_deliver_values uuid vals sa = (sb, bsb, rsb)"
    by (cases "Vote_deliver_values uuid vals sa") auto
  from Cons.prems(1) 1 2 have e: "s1 = sb" by simp
  have "acast_latched u (vs_acast sa)"
  proof (cases v)
    case (Json p)
    with 1 have "VoteService_processDeliveredPayload uuid p s = (sa, bsa, rsa)"
      by (simp add: Vote_SendResult_def)
    from VoteService_processDeliveredPayload_latched[OF this Cons.prems(2)] show ?thesis .
  next
    case (Malformed x)
    with 1 Cons.prems(2) show ?thesis by (simp add: Vote_SendResult_def)
  qed
  from Cons.IH[OF 2 this] e show ?case by simp
qed

lemma Vote_OnMessage_replay:
  assumes "Vote_OnMessage uuid msg s = (s1, bs, rs)"
  shows "Vote_OnMessage uuid' msg s1 = (s1, [], [])"
proof (cases "vm_ACastMsg msg")
  case None
  with assms show ?thesis by (cases "vm_Type msg") (simp add: Vote_OnMessage_def)
next
  case (Some am)
  have ty: "vm_Type msg = Vote_ACast" by (cases "vm_Type msg") simp
  obtain a' abcs vals where a: "Acast_OnMessage am (vs_acast s) = (a', abcs, vals)"
    by (cases "Acast_OnMessage am (vs_acast s)") auto
  obtain s' bs' rs' where d: "Vote_deliver_values uuid vals (s\<lparr>vs_acast := a'\<rparr>) = (s', bs', rs')"
    by (cases "Vote_deliver_values uuid vals (s\<lparr>vs_acast := a'\<rparr>)") auto
  from assms Some a d ty have e: "s1 = s'" by (simp add: Vote_OnMessage_def)
  have "Acast_OnMessage am (vs_acast s1) = (vs_acast s1, [], [])"
  proof (cases "vals = []")
    case True
    with d e have "vs_acast s1 = a'" by auto
    with Acast_OnMessage_replay[OF a] show ?thesis by simp
  next
    case False
    from acast_latched_after[OF a False] have "acast_latched (am_UUID am) (vs_acast (s\<lparr>vs_acast := a'\<rparr>))"
      by simp
    from Vote_deliver_values_latched[OF d this] e have "acast_latched (am_UUID am) (vs_acast s1)" by simp
    then show ?thesis by (rule acast_latched_noop)
  qed
  with Some ty show ?thesis by (simp add: Vote_OnMessage_def)
qed

lemma handleCompleteDelivery_replay:
  assumes "handleCompleteDelivery uuid val s = (s1, bs, rs)"
  shows "handleCompleteDelivery uuid' val s1 = (s1, [], [])"
proof (cases val)
  case (Malformed x)
  with assms show ?thesis by (simp add: handleCompleteDelivery_def)
next
  case (Json p)
  let ?v = "cpl_Value p" and ?j = "cpl_Sender p"
  from Json have v: "val = Json \<lparr>cpl_Sender = ?j, cpl_Value = ?v\<rparr>" by simp
  note h = complete_handle_step[OF assms[unfolded v]]
  have cc: "completeCounts s1 = (completeCounts s)(?v := insert ?j (completeCounts s ?v))" by (rule h(1))
  have u: "s1\<lparr>completeCounts := (completeCounts s1)(?v := insert ?j (completeCounts s1 ?v))\<rparr> = s1"
    by (simp add: cc)
  have n: "\<not> (int (card (completeCounts s1 ?v)) \<ge> aba_t s1 + 1 \<and> \<not> decided s1)"
  proof (cases "reaches ?j ?v s")
    case True
    with h(3) show ?thesis by simp
  next
    case False
    with h(6) have "decided s1 = decided s" by simp
    with False h(2) show ?thesis by (auto simp: reaches_def cc)
  qed
  have "handleCompleteDelivery uuid' val s1 =
          (let sa = s1\<lparr>completeCounts := (completeCounts s1)(?v := insert ?j (completeCounts s1 ?v))\<rparr>
           in if int (card (completeCounts sa ?v)) \<ge> aba_t sa + 1 \<and> \<not> decided sa
              then (let s2 = sa\<lparr>decided := True, decision := ?v\<rparr>
                    in if \<not> hasBroadcastComplete s2
                       then (case broadcastComplete uuid' (decision s2) s2 of
                               (s3, bs) \<Rightarrow> (s3\<lparr>hasBroadcastComplete := True\<rparr>, bs, [decision s2]))
                       else (s2, [], [decision s2]))
              else (sa, [], []))"
    by (simp add: handleCompleteDelivery_def Json)
  also have "\<dots> = (s1, [], [])"
    unfolding Let_def u using n by (simp only: if_False)
  finally show ?thesis .
qed

lemma handleCompleteDelivery_latched:
  assumes "handleCompleteDelivery uuid val s = (s1, bs, rs)" "acast_latched u (acastComplete s)"
  shows "acast_latched u (acastComplete s1)"
proof -
  have b: "\<And>v s2 s3 bs3. broadcastComplete uuid v s2 = (s3, bs3) \<Longrightarrow> acast_latched u (acastComplete s2)
            \<Longrightarrow> acast_latched u (acastComplete s3)"
    by (auto simp: broadcastComplete_def Let_def split: prod.splits dest: acast_latched_mono)
  from assms show ?thesis
    by (auto simp: handleCompleteDelivery_def Let_def split: option.splits if_splits prod.splits dest!: b)
qed

lemma complete_deliver_values_latched:
  "complete_deliver_values uuid vals s = (s1, bs, rs) \<Longrightarrow> acast_latched u (acastComplete s) \<Longrightarrow>
   acast_latched u (acastComplete s1)"
proof (induction vals arbitrary: s s1 bs rs)
  case Nil
  then show ?case by simp
next
  case (Cons v vals)
  obtain sa bsa rsa where 1: "handleCompleteDelivery uuid v s = (sa, bsa, rsa)"
    by (cases "handleCompleteDelivery uuid v s") auto
  obtain sb bsb rsb where 2: "complete_deliver_values uuid vals sa = (sb, bsb, rsb)"
    by (cases "complete_deliver_values uuid vals sa") auto
  from Cons.prems(1) 1 2 have e: "s1 = sb" by simp
  from Cons.IH[OF 2 handleCompleteDelivery_latched[OF 1 Cons.prems(2)]] e show ?case by simp
qed

lemma dispatchComplete_replay:
  assumes "dispatchComplete uuid msg s = (s1, bs, rs)"
  shows "dispatchComplete uuid' msg s1 = (s1, [], [])"
proof (cases "abm_CompleteMsg msg")
  case None
  with assms show ?thesis by (simp add: dispatchComplete_def)
next
  case (Some am)
  obtain a' abcs vals where a: "Acast_OnMessage am (acastComplete s) = (a', abcs, vals)"
    by (cases "Acast_OnMessage am (acastComplete s)") auto
  obtain s' bs' rs' where d: "complete_deliver_values uuid vals (s\<lparr>acastComplete := a'\<rparr>) = (s', bs', rs')"
    by (cases "complete_deliver_values uuid vals (s\<lparr>acastComplete := a'\<rparr>)") auto
  from assms Some a d have e: "s1 = s'" by (simp add: dispatchComplete_def)
  have "Acast_OnMessage am (acastComplete s1) = (acastComplete s1, [], [])"
  proof (cases "vals = []")
    case True
    with d e have "acastComplete s1 = a'" by auto
    with Acast_OnMessage_replay[OF a] show ?thesis by simp
  next
    case False
    from acast_latched_after[OF a False]
    have "acast_latched (am_UUID am) (acastComplete (s\<lparr>acastComplete := a'\<rparr>))" by simp
    from complete_deliver_values_latched[OF d this] e have "acast_latched (am_UUID am) (acastComplete s1)" by simp
    then show ?thesis by (rule acast_latched_noop)
  qed
  with Some show ?thesis by (simp add: dispatchComplete_def)
qed

end
